theory Spec2Isabelle
  imports Main
begin

section \<open>Configuration constants\<close>

text \<open>The capacity bounds of \<^verbatim>\<open>algorithm.c\<close> (the \<^verbatim>\<open>#define\<close> lines).\<close>

definition MAX_NODES :: nat where
  "MAX_NODES = 1000"

definition MAX_NEIGHBORS :: nat where
  "MAX_NEIGHBORS = 80"

definition MAX_BLOCKS :: nat where
  "MAX_BLOCKS = 1250"

section \<open>Program state\<close>

text \<open>
  The globals of the program, grouped by the part of the pipeline that writes them.
  A C array indexed by node is a function from \<open>nat\<close>; an array paired with its fill
  counter (\<^verbatim>\<open>edge_stack\<close>/\<^verbatim>\<open>stack_top\<close>, \<^verbatim>\<open>block_nodes\<close>/\<^verbatim>\<open>block_size\<close>/\<^verbatim>\<open>num_blocks\<close>,
  \<^verbatim>\<open>leaf_blocks\<close>/\<^verbatim>\<open>num_leaf_blocks\<close>) is the list of its used entries, so resetting the
  counter is resetting the list. The adjacency keeps the two arrays of the source:
  \<open>neighbors g u i\<close> is \<^verbatim>\<open>neighbors[u][i]\<close> and \<open>degree g u\<close> is \<^verbatim>\<open>degree[u]\<close>.
  The sentinel \<^verbatim>\<open>-1\<close> (no DFS parent, no representative) is \<open>None\<close>.
\<close>

record graph =
  n_nodes :: nat
  neighbors :: "nat \<Rightarrow> nat \<Rightarrow> nat"
  degree :: "nat \<Rightarrow> nat"
  exists_edge :: "nat \<Rightarrow> nat \<Rightarrow> bool"
  redundant_edge :: "nat \<Rightarrow> nat \<Rightarrow> bool"
  original_edges :: nat
  redundant_edges_added :: nat

record tarjan =
  visited :: "nat \<Rightarrow> bool"
  disc :: "nat \<Rightarrow> nat"
  low :: "nat \<Rightarrow> nat"
  parent_tarjan :: "nat \<Rightarrow> nat option"
  time_dfs :: nat
  is_cut :: "nat \<Rightarrow> bool"
  edge_stack :: "(nat \<times> nat) list"
  blocks :: "nat list list"

record leaves =
  is_leaf_block :: "nat \<Rightarrow> bool"
  leaf_blocks :: "nat list"

record state =
  gr :: graph
  tj :: tarjan
  lf :: leaves

text \<open>The neighbour list of \<open>u\<close>: the first \<open>degree[u]\<close> entries of row \<open>u\<close>, in insertion order.\<close>

definition neighbor_list :: "graph \<Rightarrow> nat \<Rightarrow> nat list" where
  "neighbor_list g u = map (neighbors g u) [0..<degree g u]"

section \<open>Initialisation\<close>

text \<open>
  \<^verbatim>\<open>init_arrays\<close>: zeroes the graph arrays, the block sizes, the leaf flags and the
  counters. It leaves the DFS arrays and \<^verbatim>\<open>n_nodes\<close> alone.
\<close>

definition init_arrays :: "state \<Rightarrow> state" where
  "init_arrays s =
     s\<lparr>gr := (gr s)\<lparr>degree := (\<lambda>_. 0), exists_edge := (\<lambda>_ _. False),
                     neighbors := (\<lambda>_ _. 0), redundant_edge := (\<lambda>_ _. False),
                     original_edges := 0, redundant_edges_added := 0\<rparr>,
       tj := (tj s)\<lparr>blocks := [], edge_stack := []\<rparr>,
       lf := (lf s)\<lparr>is_leaf_block := (\<lambda>_. False)\<rparr>\<rparr>"

section \<open>Graph generation\<close>

text \<open>
  The four statements that link two nodes, which the source writes out in the tree
  backbone, in the cross-edge loop and in the planner:
  \<^verbatim>\<open>neighbors[u][degree[u]++] = v; neighbors[v][degree[v]++] = u;
  exists_edge[u][v] = exists_edge[v][u] = 1;\<close>
\<close>

definition link_nodes :: "nat \<Rightarrow> nat \<Rightarrow> graph \<Rightarrow> graph" where
  "link_nodes u v g =
     (let g1 = g\<lparr>neighbors := (neighbors g)(u := (neighbors g u)(degree g u := v)),
                 degree := (degree g)(u := degree g u + 1)\<rparr>;
          g2 = g1\<lparr>neighbors := (neighbors g1)(v := (neighbors g1 v)(degree g1 v := u)),
                   degree := (degree g1)(v := degree g1 v + 1)\<rparr>;
          g3 = g2\<lparr>exists_edge := (exists_edge g2)(v := (exists_edge g2 v)(u := True))\<rparr>
      in g3\<lparr>exists_edge := (exists_edge g3)(u := (exists_edge g3 u)(v := True))\<rparr>)"

text \<open>
  \<^verbatim>\<open>generate_random_topology\<close>. The pseudo-random source is a parameter: \<open>rnd k\<close> is the
  value of the \<open>k\<close>-th call of \<^verbatim>\<open>rand()\<close> after the seeding. The two floating-point
  computations are parameters as well: \<open>target_edges\<close> is the value of
  \<^verbatim>\<open>(int)(n_nodes * connection_prob * 10)\<close>, and \<open>accept dist r\<close> is the outcome of
  \<^verbatim>\<open>(double)r / RAND_MAX < 1.0 / (1.0 + dist / 10.0)\<close>.
\<close>

definition backbone_step :: "(nat \<Rightarrow> nat) \<Rightarrow> graph \<Rightarrow> nat \<Rightarrow> graph" where
  "backbone_step rnd g i =
     (let parent = rnd (i - 1) mod i in
      if degree g i < MAX_NEIGHBORS \<and> degree g parent < MAX_NEIGHBORS
      then (link_nodes i parent g)\<lparr>original_edges := original_edges g + 1\<rparr>
      else g)"

definition tree_backbone :: "(nat \<Rightarrow> nat) \<Rightarrow> graph \<Rightarrow> graph" where
  "tree_backbone rnd g = foldl (backbone_step rnd) g [1..<n_nodes g]"

text \<open>
  One iteration of the cross-edge loop: it returns the number of \<^verbatim>\<open>rand()\<close> calls made so
  far and the graph. The third call is made only when the pair passes the first test.
\<close>

definition cross_step ::
  "(nat \<Rightarrow> nat) \<Rightarrow> (nat \<Rightarrow> nat \<Rightarrow> bool) \<Rightarrow> nat \<Rightarrow> graph \<Rightarrow> nat \<times> graph" where
  "cross_step rnd accept k g =
     (let u = rnd k mod n_nodes g; v = rnd (k + 1) mod n_nodes g in
      if u \<noteq> v \<and> \<not> exists_edge g u v \<and> degree g u < MAX_NEIGHBORS
         \<and> degree g v < MAX_NEIGHBORS
      then (let dist = (if u < v then v - u else u - v) in
            if accept dist (rnd (k + 2))
            then (k + 3, (link_nodes u v g)\<lparr>original_edges := original_edges g + 1\<rparr>)
            else (k + 3, g))
      else (k + 2, g))"

function cross_edges ::
  "(nat \<Rightarrow> nat) \<Rightarrow> (nat \<Rightarrow> nat \<Rightarrow> bool) \<Rightarrow> nat \<Rightarrow> nat \<Rightarrow> nat \<Rightarrow> nat \<Rightarrow> graph \<Rightarrow> graph" where
  "cross_edges rnd accept target_edges max_attempts attempts k g =
     (if original_edges g < target_edges \<and> attempts < max_attempts then
        cross_edges rnd accept target_edges max_attempts (attempts + 1)
          (fst (cross_step rnd accept k g)) (snd (cross_step rnd accept k g))
      else g)"
  by pat_completeness auto
termination
  by (relation "measure (\<lambda>(rnd, accept, target_edges, max_attempts, attempts, k, g).
                  max_attempts - attempts)") auto

declare cross_edges.simps [simp del]

definition generate_random_topology ::
  "(nat \<Rightarrow> nat) \<Rightarrow> (nat \<Rightarrow> nat \<Rightarrow> bool) \<Rightarrow> nat \<Rightarrow> state \<Rightarrow> state" where
  "generate_random_topology rnd accept target_edges s =
     s\<lparr>gr := cross_edges rnd accept target_edges (target_edges * 3) 0 (n_nodes (gr s) - 1)
               (tree_backbone rnd (gr s))\<rparr>"

section \<open>Tarjan DFS\<close>

text \<open>The guarded push of \<^verbatim>\<open>(u,v)\<close>; the head of the list is the top of the stack.\<close>

definition push_edge :: "nat \<Rightarrow> nat \<Rightarrow> tarjan \<Rightarrow> tarjan" where
  "push_edge u v t =
     (if length (edge_stack t) < MAX_NODES * 10 - 1
      then t\<lparr>edge_stack := (u, v) # edge_stack t\<rparr> else t)"

text \<open>
  Adding one endpoint to the block under construction: the local array
  \<^verbatim>\<open>in_block\<close> and the row \<^verbatim>\<open>block_nodes[num_blocks]\<close>.
\<close>

definition add_to_block :: "nat \<Rightarrow> (nat \<Rightarrow> bool) \<times> nat list \<Rightarrow> (nat \<Rightarrow> bool) \<times> nat list" where
  "add_to_block x acc =
     (if \<not> fst acc x then ((fst acc)(x := True), snd acc @ [x]) else acc)"

definition add_edge_to_block ::
  "nat \<times> nat \<Rightarrow> (nat \<Rightarrow> bool) \<times> nat list \<Rightarrow> (nat \<Rightarrow> bool) \<times> nat list" where
  "add_edge_to_block e acc = add_to_block (snd e) (add_to_block (fst e) acc)"

text \<open>
  The \<^verbatim>\<open>do ... while\<close> loop that pops a block: it stops after popping \<^verbatim>\<open>(u,v)\<close> or when
  the stack is empty.
\<close>

fun pop_until ::
  "nat \<Rightarrow> nat \<Rightarrow> (nat \<times> nat) list \<Rightarrow> (nat \<Rightarrow> bool) \<times> nat list
     \<Rightarrow> (nat \<times> nat) list \<times> (nat \<Rightarrow> bool) \<times> nat list" where
  "pop_until u v [] acc = ([], acc)"
| "pop_until u v (e # st) acc =
     (let acc' = add_edge_to_block e acc in
      if (fst e = u \<and> snd e = v) \<or> st = [] then (st, acc') else pop_until u v st acc')"

text \<open>The \<^verbatim>\<open>while(stack_top > 0)\<close> loop of the root case.\<close>

fun pop_all :: "(nat \<times> nat) list \<Rightarrow> (nat \<Rightarrow> bool) \<times> nat list \<Rightarrow> (nat \<Rightarrow> bool) \<times> nat list" where
  "pop_all [] acc = acc"
| "pop_all (e # st) acc = pop_all st (add_edge_to_block e acc)"

definition close_block :: "nat \<Rightarrow> nat \<Rightarrow> tarjan \<Rightarrow> tarjan" where
  "close_block u v t =
     (if length (blocks t) < MAX_BLOCKS then
        (let r = pop_until u v (edge_stack t) (\<lambda>_. False, []) in
         t\<lparr>edge_stack := fst r, blocks := blocks t @ [snd (snd r)]\<rparr>)
      else t)"

text \<open>What the loop body does after the recursive call on child \<open>v\<close> returns.\<close>

definition after_child :: "nat \<Rightarrow> nat \<Rightarrow> nat \<Rightarrow> tarjan \<Rightarrow> tarjan" where
  "after_child u v children t =
     (let t1 = (if low t v < low t u then t\<lparr>low := (low t)(u := low t v)\<rparr> else t) in
      if (parent_tarjan t1 u = None \<and> children > 1)
         \<or> (parent_tarjan t1 u \<noteq> None \<and> low t1 v \<ge> disc t1 u)
      then close_block u v (t1\<lparr>is_cut := (is_cut t1)(u := True)\<rparr>)
      else t1)"

text \<open>The \<^verbatim>\<open>else if\<close> branch: a back edge to an earlier node that is not the parent.\<close>

definition back_edge :: "nat \<Rightarrow> nat \<Rightarrow> tarjan \<Rightarrow> tarjan" where
  "back_edge u v t =
     (let t1 = push_edge u v t in
      if disc t1 v < low t1 u then t1\<lparr>low := (low t1)(u := disc t1 v)\<rparr> else t1)"

text \<open>The block after the loop: ``Handle remaining edges for root''.\<close>

definition root_remaining :: "nat \<Rightarrow> nat \<Rightarrow> tarjan \<Rightarrow> tarjan" where
  "root_remaining u children t =
     (if parent_tarjan t u = None \<and> children \<le> 1 \<and> edge_stack t \<noteq> []
         \<and> length (blocks t) < MAX_BLOCKS
      then t\<lparr>edge_stack := [],
             blocks := blocks t @ [snd (pop_all (edge_stack t) (\<lambda>_. False, []))]\<rparr>
      else t)"

definition enter_node :: "nat \<Rightarrow> tarjan \<Rightarrow> tarjan" where
  "enter_node u t =
     t\<lparr>visited := (visited t)(u := True), time_dfs := time_dfs t + 1,
       disc := (disc t)(u := time_dfs t + 1), low := (low t)(u := time_dfs t + 1)\<rparr>"

text \<open>
  \<^verbatim>\<open>tarjan_dfs_bicomp\<close>. The C function recurses once per tree edge; the fuel bounds the
  depth of that recursion, and \<open>None\<close> means that it ran out. \<open>dfs_loop\<close> is the
  \<^verbatim>\<open>for\<close> loop over the neighbour row of \<open>u\<close> (which the DFS never writes), carrying the
  local variable \<^verbatim>\<open>children\<close>.
\<close>

fun tarjan_dfs_bicomp :: "graph \<Rightarrow> nat \<Rightarrow> nat \<Rightarrow> tarjan \<Rightarrow> tarjan option"
  and dfs_loop :: "graph \<Rightarrow> nat \<Rightarrow> nat \<Rightarrow> nat list \<Rightarrow> nat \<Rightarrow> tarjan \<Rightarrow> (nat \<times> tarjan) option"
where
  "tarjan_dfs_bicomp g 0 u t = None"
| "tarjan_dfs_bicomp g (Suc fuel) u t =
     (case dfs_loop g fuel u (neighbor_list g u) 0 (enter_node u t) of
        None \<Rightarrow> None
      | Some (children, t') \<Rightarrow> Some (root_remaining u children t'))"
| "dfs_loop g fuel u [] children t = Some (children, t)"
| "dfs_loop g fuel u (v # vs) children t =
     (if \<not> visited t v then
        (case tarjan_dfs_bicomp g fuel v
                (push_edge u v (t\<lparr>parent_tarjan := (parent_tarjan t)(v := Some u)\<rparr>)) of
           None \<Rightarrow> None
         | Some t' \<Rightarrow> dfs_loop g fuel u vs (children + 1) (after_child u v (children + 1) t'))
      else if Some v \<noteq> parent_tarjan t u \<and> disc t v < disc t u then
        dfs_loop g fuel u vs children (back_edge u v t)
      else dfs_loop g fuel u vs children t)"

text \<open>\<^verbatim>\<open>find_biconnected_components\<close>: reset, then one DFS per unvisited node.\<close>

definition reset_tarjan :: tarjan where
  "reset_tarjan =
     \<lparr>visited = (\<lambda>_. False), disc = (\<lambda>_. 0), low = (\<lambda>_. 0), parent_tarjan = (\<lambda>_. None),
      time_dfs = 0, is_cut = (\<lambda>_. False), edge_stack = [], blocks = []\<rparr>"

fun roots_loop :: "graph \<Rightarrow> nat \<Rightarrow> nat list \<Rightarrow> tarjan \<Rightarrow> tarjan option" where
  "roots_loop g fuel [] t = Some t"
| "roots_loop g fuel (i # is) t =
     (if \<not> visited t i then
        (case tarjan_dfs_bicomp g fuel i (t\<lparr>parent_tarjan := (parent_tarjan t)(i := None)\<rparr>) of
           None \<Rightarrow> None
         | Some t' \<Rightarrow> roots_loop g fuel is t')
      else roots_loop g fuel is t)"

definition find_biconnected_components :: "nat \<Rightarrow> state \<Rightarrow> state option" where
  "find_biconnected_components fuel s =
     (case roots_loop (gr s) fuel [0..<n_nodes (gr s)] reset_tarjan of
        None \<Rightarrow> None
      | Some t \<Rightarrow> Some (s\<lparr>tj := t\<rparr>))"

section \<open>Leaf blocks and the redundancy planner\<close>

text \<open>
  Row \<open>b\<close> of \<^verbatim>\<open>block_nodes\<close> up to \<^verbatim>\<open>block_size[b]\<close>; the size of a row that no block uses is
  zero (the analyzer clears \<^verbatim>\<open>block_size\<close>).
\<close>

definition block_of :: "tarjan \<Rightarrow> nat \<Rightarrow> nat list" where
  "block_of t b = (if b < length (blocks t) then blocks t ! b else [])"

definition cut_count :: "tarjan \<Rightarrow> nat \<Rightarrow> nat" where
  "cut_count t b = length (filter (is_cut t) (block_of t b))"

definition classify_block :: "tarjan \<Rightarrow> leaves \<Rightarrow> nat \<Rightarrow> leaves" where
  "classify_block t l b =
     (if cut_count t b = 1
      then l\<lparr>is_leaf_block := (is_leaf_block l)(b := True), leaf_blocks := leaf_blocks l @ [b]\<rparr>
      else l)"

definition identify_leaf_blocks :: "state \<Rightarrow> state" where
  "identify_leaf_blocks s =
     s\<lparr>lf := foldl (classify_block (tj s))
                (\<lparr>is_leaf_block = (\<lambda>_. False), leaf_blocks = []\<rparr>)
                [0..<length (blocks (tj s))]\<rparr>"

definition find_non_cut_in_block :: "tarjan \<Rightarrow> nat \<Rightarrow> nat option" where
  "find_non_cut_in_block t b =
     (case find (\<lambda>node. \<not> is_cut t node) (block_of t b) of
        Some node \<Rightarrow> Some node
      | None \<Rightarrow> (if length (block_of t b) > 0 then Some (block_of t b ! 0) else None))"

text \<open>The body of the planner's loop for the pair of blocks \<open>block1\<close>, \<open>block2\<close>.\<close>

definition plan_pair :: "nat \<Rightarrow> nat \<Rightarrow> state \<Rightarrow> state" where
  "plan_pair block1 block2 s =
     (case (find_non_cut_in_block (tj s) block1, find_non_cut_in_block (tj s) block2) of
        (Some node1, Some node2) \<Rightarrow>
          (if node1 \<noteq> node2 \<and> \<not> exists_edge (gr s) node1 node2 then
             (if degree (gr s) node1 < MAX_NEIGHBORS \<and> degree (gr s) node2 < MAX_NEIGHBORS then
                (let g = link_nodes node1 node2 (gr s);
                     g' = g\<lparr>redundant_edge := (redundant_edge g)
                             (node2 := (redundant_edge g node2)(node1 := True))\<rparr>
                 in s\<lparr>gr := g'\<lparr>redundant_edge := (redundant_edge g')
                                  (node1 := (redundant_edge g' node1)(node2 := True)),
                               redundant_edges_added := redundant_edges_added g' + 1\<rparr>\<rparr>)
              else s)
           else s)
      | _ \<Rightarrow> s)"

lemma lf_plan_pair [simp]: "lf (plan_pair b1 b2 s) = lf s"
  by (simp add: plan_pair_def Let_def split: option.splits)

lemma tj_plan_pair [simp]: "tj (plan_pair b1 b2 s) = tj s"
  by (simp add: plan_pair_def Let_def split: option.splits)

function plan_loop :: "nat \<Rightarrow> state \<Rightarrow> state" where
  "plan_loop i s =
     (if i < length (leaf_blocks (lf s)) then
        plan_loop (i + 2)
          (plan_pair (leaf_blocks (lf s) ! i)
             (if i + 1 < length (leaf_blocks (lf s)) then leaf_blocks (lf s) ! (i + 1)
              else leaf_blocks (lf s) ! 0) s)
      else s)"
  by pat_completeness auto
termination
  by (relation "measure (\<lambda>(i, s). length (leaf_blocks (lf s)) - i)") auto

declare plan_loop.simps [simp del]

definition add_optimal_redundant_edges :: "state \<Rightarrow> state" where
  "add_optimal_redundant_edges s =
     (let s1 = identify_leaf_blocks s in
      plan_loop 0 (s1\<lparr>gr := (gr s1)\<lparr>redundant_edges_added := 0\<rparr>\<rparr>))"

section \<open>Notions used in the statements\<close>

text \<open>
  A block is a list of node ids, so an edge \<open>{u, v}\<close> belongs to a block when both of its
  endpoints are members. \<open>blocks_of_edge\<close> lists the indices of the blocks an edge belongs to.
\<close>

definition edge_in_block :: "nat \<Rightarrow> nat \<Rightarrow> nat list \<Rightarrow> bool" where
  "edge_in_block u v b = (u \<in> set b \<and> v \<in> set b)"

definition blocks_of_edge :: "tarjan \<Rightarrow> nat \<Rightarrow> nat \<Rightarrow> nat list" where
  "blocks_of_edge t u v =
     filter (\<lambda>b. edge_in_block u v (blocks t ! b)) [0..<length (blocks t)]"

text \<open>The invariants of the graph store.\<close>

definition degree_bounded :: "graph \<Rightarrow> bool" where
  "degree_bounded g = (\<forall>u. degree g u \<le> MAX_NEIGHBORS)"

definition adjacency_symmetric :: "graph \<Rightarrow> bool" where
  "adjacency_symmetric g =
     (\<forall>u v. (v \<in> set (neighbor_list g u)) = (u \<in> set (neighbor_list g v)))"

definition degree_consistent :: "graph \<Rightarrow> bool" where
  "degree_consistent g = (\<forall>u. length (neighbor_list g u) = degree g u)"

text \<open>Every adjacency entry joins two nodes below \<^verbatim>\<open>n_nodes\<close>.\<close>

definition in_range :: "graph \<Rightarrow> bool" where
  "in_range g =
     (\<forall>u v. v \<in> set (neighbor_list g u) \<longrightarrow> u < n_nodes g \<and> v < n_nodes g)"

text \<open>The undirected edges recorded in \<^verbatim>\<open>exists_edge\<close>.\<close>

definition edge_set :: "graph \<Rightarrow> nat set set" where
  "edge_set g = {{u, v} |u v. exists_edge g u v}"

definition exists_edge_symmetric :: "graph \<Rightarrow> bool" where
  "exists_edge_symmetric g = (\<forall>u v. exists_edge g u v = exists_edge g v u)"

text \<open>
  The reference notion of a cut vertex, by reachability. \<open>inside g S\<close> is the adjacency
  restricted to the nodes of \<open>S\<close>; two nodes are connected avoiding \<open>w\<close> when a path joins
  them in the graph from which \<open>w\<close> and its incident edges are removed. A node \<open>w\<close> is an
  articulation point when removing it disconnects the rest: two other nodes are not
  connected avoiding \<open>w\<close>.
\<close>

definition inside :: "graph \<Rightarrow> nat set \<Rightarrow> (nat \<times> nat) set" where
  "inside g S = {(a, b). a \<in> S \<and> b \<in> S \<and> b \<in> set (neighbor_list g a)}"

definition connected_avoiding :: "graph \<Rightarrow> nat \<Rightarrow> nat \<Rightarrow> nat \<Rightarrow> bool" where
  "connected_avoiding g w a b = ((a, b) \<in> (inside g (- {w}))\<^sup>*)"

definition articulation_point :: "graph \<Rightarrow> nat \<Rightarrow> bool" where
  "articulation_point g w =
     (w < n_nodes g \<and>
      (\<exists>a b. a < n_nodes g \<and> b < n_nodes g \<and> a \<noteq> w \<and> b \<noteq> w \<and> \<not> connected_avoiding g w a b))"

definition connected_graph :: "graph \<Rightarrow> bool" where
  "connected_graph g =
     (\<forall>a b. a < n_nodes g \<and> b < n_nodes g \<longrightarrow> (a, b) \<in> (inside g UNIV)\<^sup>*)"

text \<open>
  The operations of the pipeline, for statements about arbitrary sequences of them.
  The generator carries its random source and the two floating-point outcomes; the
  analyzer carries its recursion budget.
\<close>

datatype operation =
    Init
  | Generate "nat \<Rightarrow> nat" "nat \<Rightarrow> nat \<Rightarrow> bool" nat
  | Analyze nat
  | Plan

fun run_operation :: "operation \<Rightarrow> state \<Rightarrow> state option" where
  "run_operation Init s = Some (init_arrays s)"
| "run_operation (Generate rnd accept target_edges) s =
     Some (generate_random_topology rnd accept target_edges s)"
| "run_operation (Analyze fuel) s = find_biconnected_components fuel s"
| "run_operation Plan s = Some (add_optimal_redundant_edges s)"

fun run_operations :: "operation list \<Rightarrow> state \<Rightarrow> state option" where
  "run_operations [] s = Some s"
| "run_operations (op # ops) s =
     (case run_operation op s of None \<Rightarrow> None | Some s' \<Rightarrow> run_operations ops s')"

fun enough_fuel :: "nat \<Rightarrow> operation \<Rightarrow> bool" where
  "enough_fuel n (Analyze fuel) = (n \<le> fuel)"
| "enough_fuel n _ = True"

subsection \<open>The planner in the words of the specification\<close>

text \<open>
  Pairing in discovery order: \<open>(leaf[0], leaf[1])\<close>, \<open>(leaf[2], leaf[3])\<close>, ...; a final
  unpaired leaf is paired with \<open>leaf[0]\<close>.
\<close>

fun pair_up :: "nat \<Rightarrow> nat list \<Rightarrow> (nat \<times> nat) list" where
  "pair_up first [] = []"
| "pair_up first [a] = [(a, first)]"
| "pair_up first (a # b # rest) = (a, b) # pair_up first rest"

definition spec_pairs :: "nat list \<Rightarrow> (nat \<times> nat) list" where
  "spec_pairs leaf = (case leaf of [] \<Rightarrow> [] | first # _ \<Rightarrow> pair_up first leaf)"

text \<open>
  The representative of a block: a member that is not a cut vertex if one exists (the
  first such member), otherwise the first member.
\<close>

definition representative :: "tarjan \<Rightarrow> nat \<Rightarrow> nat" where
  "representative t b =
     (case filter (\<lambda>node. \<not> is_cut t node) (block_of t b) of
        node # _ \<Rightarrow> node
      | [] \<Rightarrow> hd (block_of t b))"

text \<open>Inserting a bidirectional link tagged redundant in both directions, and counting it.\<close>

definition insert_redundant :: "nat \<Rightarrow> nat \<Rightarrow> graph \<Rightarrow> graph" where
  "insert_redundant a b g =
     g\<lparr>neighbors := (neighbors g)(a := (neighbors g a)(degree g a := b),
                                   b := (neighbors g b)(degree g b := a)),
       degree := (degree g)(a := degree g a + 1, b := degree g b + 1),
       exists_edge := (\<lambda>x y. (x = a \<and> y = b) \<or> (x = b \<and> y = a) \<or> exists_edge g x y),
       redundant_edge := (\<lambda>x y. (x = a \<and> y = b) \<or> (x = b \<and> y = a) \<or> redundant_edge g x y),
       redundant_edges_added := redundant_edges_added g + 1\<rparr>"

definition spec_connect :: "state \<Rightarrow> nat \<times> nat \<Rightarrow> state" where
  "spec_connect s p =
     (let a = representative (tj s) (fst p); b = representative (tj s) (snd p) in
      if a \<noteq> b \<and> \<not> exists_edge (gr s) a b
         \<and> degree (gr s) a < MAX_NEIGHBORS \<and> degree (gr s) b < MAX_NEIGHBORS
      then s\<lparr>gr := insert_redundant a b (gr s)\<rparr> else s)"

text \<open>
  The classifier: a block is a leaf block iff exactly one of its members is flagged as a
  cut vertex; the leaf list holds the indices of the leaf blocks in discovery order.
\<close>

definition spec_leaf :: "tarjan \<Rightarrow> nat \<Rightarrow> bool" where
  "spec_leaf t b = (b < length (blocks t) \<and> length (filter (is_cut t) (blocks t ! b)) = 1)"

definition spec_classify :: "tarjan \<Rightarrow> nat list" where
  "spec_classify t = filter (spec_leaf t) [0..<length (blocks t)]"

text \<open>
  The planner: classify, clear the counter, and connect the pairs of the leaf list in
  order.
\<close>

definition spec_planner :: "state \<Rightarrow> state" where
  "spec_planner s =
     foldl spec_connect
       (s\<lparr>lf := \<lparr>is_leaf_block = spec_leaf (tj s), leaf_blocks = spec_classify (tj s)\<rparr>,
          gr := (gr s)\<lparr>redundant_edges_added := 0\<rparr>\<rparr>)
       (spec_pairs (spec_classify (tj s)))"

text \<open>
  An intermediate form for the proofs: the source's classification, followed by a fold of
  \<open>spec_connect\<close> over the pairs of the leaf list that it produced.
\<close>

definition fold_planner :: "state \<Rightarrow> state" where
  "fold_planner s =
     (let s1 = identify_leaf_blocks s in
      foldl spec_connect (s1\<lparr>gr := (gr s1)\<lparr>redundant_edges_added := 0\<rparr>\<rparr>)
        (spec_pairs (leaf_blocks (lf s1))))"

section \<open>Test topologies\<close>

text \<open>
  The state at program start (all statics zero) holding the simple graph given by its
  adjacency rows: row \<open>u\<close> lists the neighbours of \<open>u\<close> in insertion order.
\<close>

definition graph_of_rows :: "nat list list \<Rightarrow> graph" where
  "graph_of_rows rows =
     \<lparr>n_nodes = length rows,
      neighbors = (\<lambda>u i. if u < length rows \<and> i < length (rows ! u) then rows ! u ! i else 0),
      degree = (\<lambda>u. if u < length rows then length (rows ! u) else 0),
      exists_edge = (\<lambda>u v. u < length rows \<and> v \<in> set (rows ! u)),
      redundant_edge = (\<lambda>_ _. False),
      original_edges = sum_list (map length rows) div 2,
      redundant_edges_added = 0\<rparr>"

definition state_of_rows :: "nat list list \<Rightarrow> state" where
  "state_of_rows rows =
     \<lparr>gr = graph_of_rows rows,
      tj = \<lparr>visited = (\<lambda>_. False), disc = (\<lambda>_. 0), low = (\<lambda>_. 0),
            parent_tarjan = (\<lambda>_. Some 0), time_dfs = 0, is_cut = (\<lambda>_. False),
            edge_stack = [], blocks = []\<rparr>,
      lf = \<lparr>is_leaf_block = (\<lambda>_. False), leaf_blocks = []\<rparr>\<rparr>"

definition star7 :: state where
  "star7 = state_of_rows [[1, 2, 3, 4, 5, 6], [0], [0], [0], [0], [0], [0]]"

definition path5 :: state where
  "path5 = state_of_rows [[1], [0, 2], [1, 3], [2, 4], [3]]"

definition triangle :: state where
  "triangle = state_of_rows [[1, 2], [0, 2], [0, 1]]"

definition fork3 :: state where
  "fork3 = state_of_rows [[1, 2], [0], [0]]"

text \<open>
  For the capacity scenario: \<open>n\<close> nodes without edges, a \<^verbatim>\<open>rand()\<close> that always returns
  zero, and an acceptance test that always fails.
\<close>

definition isolated :: "nat \<Rightarrow> state" where
  "isolated n = state_of_rows (replicate n [])"

definition rand_zero :: "nat \<Rightarrow> nat" where
  "rand_zero k = 0"

definition never_accept :: "nat \<Rightarrow> nat \<Rightarrow> bool" where
  "never_accept dist r = False"

text \<open>The scenarios: analysis, planning, and analysis again.\<close>

definition fork3_analysed :: state where
  "fork3_analysed = the (find_biconnected_components 4 fork3)"

definition star7_analysed :: state where
  "star7_analysed = the (find_biconnected_components 8 star7)"

definition star7_planned :: state where
  "star7_planned = add_optimal_redundant_edges star7_analysed"

definition path5_analysed :: state where
  "path5_analysed = the (find_biconnected_components 6 path5)"

definition path5_planned :: state where
  "path5_planned = add_optimal_redundant_edges path5_analysed"

definition path5_reanalysed :: state where
  "path5_reanalysed = the (find_biconnected_components 6 path5_planned)"

definition triangle_analysed :: state where
  "triangle_analysed = the (find_biconnected_components 4 triangle)"

section \<open>Basic facts about the graph store\<close>

lemma neighbor_list_upd [simp]:
  "neighbor_list (g\<lparr>redundant_edge := re\<rparr>) = neighbor_list g"
  "neighbor_list (g\<lparr>redundant_edges_added := k\<rparr>) = neighbor_list g"
  "neighbor_list (g\<lparr>original_edges := k\<rparr>) = neighbor_list g"
  "neighbor_list (g\<lparr>exists_edge := ee\<rparr>) = neighbor_list g"
  by (simp_all add: neighbor_list_def fun_eq_iff)

lemma link_nodes_sel [simp]:
  "n_nodes (link_nodes u v g) = n_nodes g"
  "redundant_edge (link_nodes u v g) = redundant_edge g"
  "original_edges (link_nodes u v g) = original_edges g"
  "redundant_edges_added (link_nodes u v g) = redundant_edges_added g"
  by (simp_all add: link_nodes_def Let_def)

lemma degree_link_nodes:
  "u \<noteq> v \<Longrightarrow>
   degree (link_nodes u v g) w = (if w = u \<or> w = v then degree g w + 1 else degree g w)"
  by (simp add: link_nodes_def Let_def)

lemma exists_edge_link_nodes:
  "exists_edge (link_nodes u v g) a b =
     ((a = u \<and> b = v) \<or> (a = v \<and> b = u) \<or> exists_edge g a b)"
  by (auto simp add: link_nodes_def Let_def)

lemma neighbor_list_link_nodes:
  "u \<noteq> v \<Longrightarrow> neighbor_list (link_nodes u v g) w =
     (if w = u then neighbor_list g u @ [v] else if w = v then neighbor_list g v @ [u]
      else neighbor_list g w)"
  by (simp add: neighbor_list_def link_nodes_def Let_def)

lemma link_nodes_insert_redundant:
  "u \<noteq> v \<Longrightarrow>
   (let g = link_nodes u v g0;
        g' = g\<lparr>redundant_edge := (redundant_edge g)(v := (redundant_edge g v)(u := True))\<rparr>
    in g'\<lparr>redundant_edge := (redundant_edge g')(u := (redundant_edge g' u)(v := True)),
          redundant_edges_added := redundant_edges_added g' + 1\<rparr>) = insert_redundant u v g0"
  by (auto simp add: link_nodes_def insert_redundant_def Let_def fun_eq_iff)

section \<open>Leaf classification\<close>

lemma foldl_classify:
  "foldl (classify_block t) l bs =
     \<lparr>is_leaf_block = (\<lambda>b. is_leaf_block l b \<or> (b \<in> set bs \<and> cut_count t b = 1)),
      leaf_blocks = leaf_blocks l @ filter (\<lambda>b. cut_count t b = 1) bs\<rparr>"
proof (induction bs arbitrary: l)
  case Nil
  show ?case by simp
next
  case (Cons b bs)
  have step: "classify_block t l b =
      (if cut_count t b = 1
       then l\<lparr>is_leaf_block := (is_leaf_block l)(b := True),
              leaf_blocks := leaf_blocks l @ [b]\<rparr> else l)"
    by (simp add: classify_block_def)
  show ?case
    by (cases "cut_count t b = 1") (auto simp add: Cons.IH step fun_eq_iff)
qed

lemma leaf_blocks_identify:
  "leaf_blocks (lf (identify_leaf_blocks s)) =
     filter (\<lambda>b. cut_count (tj s) b = 1) [0..<length (blocks (tj s))]"
  by (simp add: identify_leaf_blocks_def foldl_classify)

lemma identify_sel [simp]:
  "gr (identify_leaf_blocks s) = gr s" "tj (identify_leaf_blocks s) = tj s"
  by (simp_all add: identify_leaf_blocks_def)

lemma identify_idem:
  "tj s' = tj s \<Longrightarrow> lf (identify_leaf_blocks s') = lf (identify_leaf_blocks s)"
  by (simp add: identify_leaf_blocks_def)

section \<open>Representatives\<close>

lemma find_filter: "find P xs = (case filter P xs of [] \<Rightarrow> None | x # _ \<Rightarrow> Some x)"
  by (induction xs) auto

lemma find_non_cut_representative:
  "block_of t b \<noteq> [] \<Longrightarrow> find_non_cut_in_block t b = Some (representative t b)"
  by (cases "block_of t b")
     (auto simp add: find_non_cut_in_block_def representative_def find_filter split: list.splits)

lemma leaf_block_nonempty: "cut_count t b = 1 \<Longrightarrow> block_of t b \<noteq> []"
  by (auto simp add: cut_count_def)

lemma plan_pair_spec:
  "cut_count (tj s) b1 = 1 \<Longrightarrow> cut_count (tj s) b2 = 1 \<Longrightarrow>
   plan_pair b1 b2 s = spec_connect s (b1, b2)"
  using link_nodes_insert_redundant
    [of "representative (tj s) b1" "representative (tj s) b2" "gr s"]
  by (simp add: plan_pair_def spec_connect_def find_non_cut_representative
      leaf_block_nonempty Let_def)

section \<open>The planner loop as a fold over the pairs\<close>

lemma plan_loop_foldl:
  "plan_loop i s =
     foldl (\<lambda>s p. plan_pair (fst p) (snd p) s) s
       (pair_up (leaf_blocks (lf s) ! 0) (drop i (leaf_blocks (lf s))))"
proof (induction i s rule: plan_loop.induct)
  case (1 i s)
  let ?ls = "leaf_blocks (lf s)"
  let ?f = "\<lambda>s p. plan_pair (fst p) (snd p) s"
  show ?case
  proof (cases "i < length ?ls")
    case False
    have a: "plan_loop i s = s"
      using False by (subst plan_loop.simps) simp
    have b: "drop i ?ls = []"
      using False by simp
    show ?thesis by (simp only: a b pair_up.simps foldl_Nil)
  next
    case True
    note lt = True
    have d1: "drop i ?ls = ?ls ! i # drop (Suc i) ?ls"
      using lt by (simp add: Cons_nth_drop_Suc)
    show ?thesis
    proof (cases "i + 1 < length ?ls")
      case True
      let ?s' = "plan_pair (?ls ! i) (?ls ! (i + 1)) s"
      have d2: "drop (Suc i) ?ls = ?ls ! (i + 1) # drop (i + 2) ?ls"
        using True by (simp add: Cons_nth_drop_Suc)
      have unf: "plan_loop i s = plan_loop (i + 2) ?s'"
        using lt True by (subst plan_loop.simps) (simp only: if_True)
      have pu: "pair_up (?ls ! 0) (drop i ?ls)
                = (?ls ! i, ?ls ! (i + 1)) # pair_up (?ls ! 0) (drop (i + 2) ?ls)"
        by (simp only: d1 d2 pair_up.simps)
      have ih: "plan_loop (i + 2) ?s' = foldl ?f ?s' (pair_up (?ls ! 0) (drop (i + 2) ?ls))"
        using "1.IH" [OF lt] True by (simp only: if_True lf_plan_pair)
      show ?thesis
        by (simp only: unf pu ih foldl_Cons fst_conv snd_conv)
    next
      case False
      let ?s' = "plan_pair (?ls ! i) (?ls ! 0) s"
      have d2: "drop (Suc i) ?ls = []" and d3: "drop (i + 2) ?ls = []"
        using False by simp_all
      have unf: "plan_loop i s = plan_loop (i + 2) ?s'"
        using lt False by (subst plan_loop.simps) (simp only: if_True if_False)
      have pu: "pair_up (?ls ! 0) (drop i ?ls) = [(?ls ! i, ?ls ! 0)]"
        by (simp only: d1 d2 pair_up.simps)
      have ih: "plan_loop (i + 2) ?s' = foldl ?f ?s' (pair_up (?ls ! 0) (drop (i + 2) ?ls))"
        using "1.IH" [OF lt] False by (simp only: if_False lf_plan_pair)
      show ?thesis
        by (simp only: unf pu ih d3 pair_up.simps foldl_Cons foldl_Nil fst_conv snd_conv)
    qed
  qed
qed

lemma spec_connect_sel [simp]:
  "tj (spec_connect s p) = tj s" "lf (spec_connect s p) = lf s"
  by (simp_all add: spec_connect_def Let_def)

lemma foldl_spec_connect_sel [simp]:
  "tj (foldl spec_connect s ps) = tj s" "lf (foldl spec_connect s ps) = lf s"
  by (induction ps arbitrary: s) simp_all

lemma pair_up_members:
  "(a, b) \<in> set (pair_up first ls) \<Longrightarrow> a \<in> set ls \<and> (b \<in> set ls \<or> b = first)"
  by (induction first ls rule: pair_up.induct) auto

lemma foldl_plan_pair_spec:
  "\<forall>p \<in> set ps. cut_count (tj s) (fst p) = 1 \<and> cut_count (tj s) (snd p) = 1 \<Longrightarrow>
   foldl (\<lambda>s p. plan_pair (fst p) (snd p) s) s ps = foldl spec_connect s ps"
proof (induction ps arbitrary: s)
  case Nil
  show ?case by simp
next
  case (Cons p ps)
  have "plan_pair (fst p) (snd p) s = spec_connect s p"
    using Cons.prems plan_pair_spec [of s "fst p" "snd p"] by simp
  moreover have "foldl (\<lambda>s p. plan_pair (fst p) (snd p) s) (spec_connect s p) ps
                 = foldl spec_connect (spec_connect s p) ps"
    using Cons.prems by (intro Cons.IH) simp
  ultimately show ?case by simp
qed

section \<open>Effect of one insertion\<close>

lemma insert_redundant_sel [simp]:
  "n_nodes (insert_redundant a b g) = n_nodes g"
  "original_edges (insert_redundant a b g) = original_edges g"
  "redundant_edges_added (insert_redundant a b g) = redundant_edges_added g + 1"
  "exists_edge (insert_redundant a b g) x y =
     ((x = a \<and> y = b) \<or> (x = b \<and> y = a) \<or> exists_edge g x y)"
  "redundant_edge (insert_redundant a b g) x y =
     ((x = a \<and> y = b) \<or> (x = b \<and> y = a) \<or> redundant_edge g x y)"
  by (simp_all add: insert_redundant_def)

lemma degree_insert_redundant:
  "a \<noteq> b \<Longrightarrow> degree (insert_redundant a b g) w =
     (if w = a \<or> w = b then degree g w + 1 else degree g w)"
  by (simp add: insert_redundant_def)

lemma neighbor_list_insert_redundant:
  "a \<noteq> b \<Longrightarrow> neighbor_list (insert_redundant a b g) w =
     (if w = a then neighbor_list g a @ [b] else if w = b then neighbor_list g b @ [a]
      else neighbor_list g w)"
  by (simp add: neighbor_list_def insert_redundant_def)

lemma edge_set_insert_redundant:
  "edge_set (insert_redundant a b g) = insert {a, b} (edge_set g)"
  by (auto simp add: edge_set_def insert_commute)

lemma spec_connect_cases:
  "spec_connect s p = s \<or>
   (\<exists>a b. a \<noteq> b \<and> \<not> exists_edge (gr s) a b \<and>
      spec_connect s p = s\<lparr>gr := insert_redundant a b (gr s)\<rparr>)"
  by (auto simp add: spec_connect_def Let_def split: if_splits)

section \<open>Frame of the planner\<close>

lemma spec_connect_frame:
  "(\<forall>u v. exists_edge (gr s) u v \<longrightarrow> exists_edge (gr (spec_connect s p)) u v) \<and>
   (\<forall>u. \<exists>ys. neighbor_list (gr (spec_connect s p)) u = neighbor_list (gr s) u @ ys) \<and>
   (\<forall>u. degree (gr s) u \<le> degree (gr (spec_connect s p)) u) \<and>
   redundant_edges_added (gr (spec_connect s p)) \<le> redundant_edges_added (gr s) + 1 \<and>
   n_nodes (gr (spec_connect s p)) = n_nodes (gr s)"
proof -
  consider (skip) "spec_connect s p = s"
    | (link) a b where "a \<noteq> b"
        "spec_connect s p = s\<lparr>gr := insert_redundant a b (gr s)\<rparr>"
    using spec_connect_cases [of s p] by blast
  then show ?thesis
  proof cases
    case skip
    then show ?thesis by simp
  next
    case link
    then show ?thesis
      by (simp add: degree_insert_redundant neighbor_list_insert_redundant)
  qed
qed

lemma foldl_spec_connect_frame:
  "(\<forall>u v. exists_edge (gr s) u v \<longrightarrow> exists_edge (gr (foldl spec_connect s ps)) u v) \<and>
   (\<forall>u. \<exists>ys. neighbor_list (gr (foldl spec_connect s ps)) u = neighbor_list (gr s) u @ ys) \<and>
   (\<forall>u. degree (gr s) u \<le> degree (gr (foldl spec_connect s ps)) u) \<and>
   redundant_edges_added (gr (foldl spec_connect s ps))
     \<le> redundant_edges_added (gr s) + length ps \<and>
   n_nodes (gr (foldl spec_connect s ps)) = n_nodes (gr s)"
proof (induction ps arbitrary: s)
  case Nil
  show ?case by simp
next
  case (Cons p ps)
  let ?m = "spec_connect s p"
  let ?r = "foldl spec_connect ?m ps"
  note a = spec_connect_frame [of s p] and b = Cons.IH [of ?m]
  have 1: "\<forall>u v. exists_edge (gr s) u v \<longrightarrow> exists_edge (gr ?r) u v"
    using a b by blast
  have 2: "\<forall>u. \<exists>ys. neighbor_list (gr ?r) u = neighbor_list (gr s) u @ ys"
  proof
    fix u
    from a obtain ys where "neighbor_list (gr ?m) u = neighbor_list (gr s) u @ ys" by blast
    moreover from b obtain zs where "neighbor_list (gr ?r) u = neighbor_list (gr ?m) u @ zs"
      by blast
    ultimately show "\<exists>ys. neighbor_list (gr ?r) u = neighbor_list (gr s) u @ ys" by simp
  qed
  have 3: "\<forall>u. degree (gr s) u \<le> degree (gr ?r) u"
    using a b by (meson order_trans)
  have 4: "redundant_edges_added (gr ?r) \<le> redundant_edges_added (gr s) + length (p # ps)"
    using a b by simp
  have 5: "n_nodes (gr ?r) = n_nodes (gr s)"
    using a b by simp
  show ?case using 1 2 3 4 5 by simp
qed

section \<open>Counting the inserted edges\<close>

lemma not_in_edge_set:
  "exists_edge_symmetric g \<Longrightarrow> \<not> exists_edge g a b \<Longrightarrow> {a, b} \<notin> edge_set g"
  by (auto simp add: edge_set_def exists_edge_symmetric_def doubleton_eq_iff)

lemma spec_connect_count:
  assumes "exists_edge_symmetric (gr s)"
  shows "exists_edge_symmetric (gr (spec_connect s p)) \<and>
         edge_set (gr s) \<subseteq> edge_set (gr (spec_connect s p)) \<and>
         finite (edge_set (gr (spec_connect s p)) - edge_set (gr s)) \<and>
         redundant_edges_added (gr (spec_connect s p))
           = redundant_edges_added (gr s)
             + card (edge_set (gr (spec_connect s p)) - edge_set (gr s))"
proof -
  consider (skip) "spec_connect s p = s"
    | (link) a b where "\<not> exists_edge (gr s) a b"
        "spec_connect s p = s\<lparr>gr := insert_redundant a b (gr s)\<rparr>"
    using spec_connect_cases [of s p] by blast
  then show ?thesis
  proof cases
    case skip
    then show ?thesis using assms by simp
  next
    case link
    have new: "{a, b} \<notin> edge_set (gr s)"
      using assms link(1) by (rule not_in_edge_set)
    have diff: "insert {a, b} (edge_set (gr s)) - edge_set (gr s) = {{a, b}}"
      using new by auto
    have sym: "exists_edge_symmetric (insert_redundant a b (gr s))"
      using assms by (auto simp add: exists_edge_symmetric_def)
    show ?thesis
      using sym by (simp add: link(2) edge_set_insert_redundant diff subset_insertI)
  qed
qed

lemma foldl_spec_connect_count:
  "exists_edge_symmetric (gr s) \<Longrightarrow>
   exists_edge_symmetric (gr (foldl spec_connect s ps)) \<and>
   edge_set (gr s) \<subseteq> edge_set (gr (foldl spec_connect s ps)) \<and>
   finite (edge_set (gr (foldl spec_connect s ps)) - edge_set (gr s)) \<and>
   redundant_edges_added (gr (foldl spec_connect s ps))
     = redundant_edges_added (gr s)
       + card (edge_set (gr (foldl spec_connect s ps)) - edge_set (gr s))"
proof (induction ps arbitrary: s)
  case Nil
  then show ?case by simp
next
  case (Cons p ps)
  let ?m = "spec_connect s p"
  let ?r = "foldl spec_connect ?m ps"
  let ?E = "\<lambda>x. edge_set (gr x)"
  note a = spec_connect_count [OF Cons.prems, of p]
  then have symm: "exists_edge_symmetric (gr ?m)" by simp
  note b = Cons.IH [OF symm]
  have split: "?E ?r - ?E s = (?E ?r - ?E ?m) \<union> (?E ?m - ?E s)"
    using a b by blast
  have disj: "(?E ?r - ?E ?m) \<inter> (?E ?m - ?E s) = {}"
    by blast
  have "card (?E ?r - ?E s) = card (?E ?r - ?E ?m) + card (?E ?m - ?E s)"
    unfolding split using a b disj by (intro card_Un_disjoint) simp_all
  moreover have "finite (?E ?r - ?E s)"
    unfolding split using a b by simp
  moreover have "?E s \<subseteq> ?E ?r"
    using a b by blast
  ultimately show ?case using a b by simp
qed

lemma length_pair_up: "length (pair_up first ls) = (length ls + 1) div 2"
  by (induction first ls rule: pair_up.induct) simp_all

lemma length_spec_pairs: "length (spec_pairs ls) = (length ls + 1) div 2"
  by (cases ls) (simp_all add: spec_pairs_def length_pair_up)

lemma planner_is_fold_planner: "add_optimal_redundant_edges s = fold_planner s"
proof -
  define s1 where "s1 = identify_leaf_blocks s"
  define s2 where "s2 = s1\<lparr>gr := (gr s1)\<lparr>redundant_edges_added := 0\<rparr>\<rparr>"
  let ?ls = "leaf_blocks (lf s1)"
  have ls: "?ls = filter (\<lambda>b. cut_count (tj s) b = 1) [0..<length (blocks (tj s))]"
    by (simp add: s1_def leaf_blocks_identify)
  have sel: "lf s2 = lf s1" "tj s2 = tj s"
    by (simp_all add: s2_def s1_def)
  have pairs: "pair_up (?ls ! 0) (drop 0 ?ls) = spec_pairs ?ls"
    by (cases ?ls) (simp_all add: spec_pairs_def)
  have leafy: "\<forall>p \<in> set (spec_pairs ?ls).
                 cut_count (tj s2) (fst p) = 1 \<and> cut_count (tj s2) (snd p) = 1"
  proof
    fix p assume p: "p \<in> set (spec_pairs ?ls)"
    then obtain first rest where fr: "?ls = first # rest"
      by (cases ?ls) (auto simp add: spec_pairs_def)
    from p fr have "(fst p, snd p) \<in> set (pair_up first ?ls)"
      by (simp add: spec_pairs_def)
    from pair_up_members [OF this] fr
    have "fst p \<in> set ?ls" "snd p \<in> set ?ls" by auto
    then show "cut_count (tj s2) (fst p) = 1 \<and> cut_count (tj s2) (snd p) = 1"
      unfolding ls sel by simp
  qed
  have "add_optimal_redundant_edges s = plan_loop 0 s2"
    by (simp add: add_optimal_redundant_edges_def s1_def s2_def Let_def)
  also have "\<dots> = foldl (\<lambda>s p. plan_pair (fst p) (snd p) s) s2 (spec_pairs ?ls)"
    using pairs by (simp only: plan_loop_foldl sel)
  also have "\<dots> = foldl spec_connect s2 (spec_pairs ?ls)"
    using leafy by (rule foldl_plan_pair_spec)
  also have "\<dots> = fold_planner s"
    by (simp add: fold_planner_def s1_def s2_def Let_def)
  finally show ?thesis .
qed

lemma edge_set_upd [simp]:
  "edge_set (g\<lparr>redundant_edges_added := k\<rparr>) = edge_set g"
  by (simp add: edge_set_def)

section \<open>Evaluating the program on the test topologies\<close>

lemma dfs_numeral:
  "tarjan_dfs_bicomp g (numeral k) u t =
     (case dfs_loop g (pred_numeral k) u (neighbor_list g u) 0 (enter_node u t) of
        None \<Rightarrow> None
      | Some (children, t') \<Rightarrow> Some (root_remaining u children t'))"
  by (simp add: numeral_eq_Suc)

lemma neighbor_list_rows:
  "neighbor_list (graph_of_rows rows) u = (if u < length rows then rows ! u else [])"
  by (auto simp: neighbor_list_def graph_of_rows_def intro!: nth_equalityI)

lemma graph_of_rows_sel:
  "n_nodes (graph_of_rows rows) = length rows"
  "degree (graph_of_rows rows) u = (if u < length rows then length (rows ! u) else 0)"
  "exists_edge (graph_of_rows rows) u v = (u < length rows \<and> v \<in> set (rows ! u))"
  "redundant_edge (graph_of_rows rows) u v = False"
  "redundant_edges_added (graph_of_rows rows) = 0"
  by (simp_all add: graph_of_rows_def)

lemma gr_find_biconnected_components:
  "find_biconnected_components fuel s = Some s' \<Longrightarrow> gr s' = gr s \<and> lf s' = lf s"
  by (auto simp add: find_biconnected_components_def split: option.splits)

lemmas dfs_eval = dfs_numeral enter_node_def push_edge_def after_child_def close_block_def
  back_edge_def root_remaining_def add_to_block_def add_edge_to_block_def
  find_biconnected_components_def reset_tarjan_def MAX_NODES_def MAX_BLOCKS_def Let_def upt_rec

lemmas rows_eval = state_of_rows_def neighbor_list_rows graph_of_rows_sel

lemmas plan_eval = add_optimal_redundant_edges_def identify_leaf_blocks_def classify_block_def
  cut_count_def block_of_def find_non_cut_in_block_def plan_pair_def plan_loop.simps
  MAX_NEIGHBORS_def degree_link_nodes exists_edge_link_nodes neighbor_list_link_nodes

lemma fork3_analysis:
  "find_biconnected_components 4 fork3 = Some fork3_analysed"
  "gr fork3_analysed = gr fork3"
  "blocks (tj fork3_analysed) = [[0, 2]]"
  "edge_stack (tj fork3_analysed) = [(0, 1)]"
  "is_cut (tj fork3_analysed) = (\<lambda>_. False)(0 := True)"
  unfolding fork3_analysed_def
  by (simp_all add: fork3_def rows_eval dfs_eval)

lemma star7_analysis:
  "find_biconnected_components 8 star7 = Some star7_analysed"
  "gr star7_analysed = gr star7"
  "blocks (tj star7_analysed) = [[0, 2], [0, 3], [0, 4], [0, 5], [0, 6]]"
  "edge_stack (tj star7_analysed) = [(0, 1)]"
  "is_cut (tj star7_analysed) = (\<lambda>_. False)(0 := True)"
  unfolding star7_analysed_def
  by (simp_all add: star7_def rows_eval dfs_eval)

lemma path5_analysis:
  "find_biconnected_components 6 path5 = Some path5_analysed"
  "gr path5_analysed = gr path5"
  "blocks (tj path5_analysed) = [[3, 4], [2, 3], [1, 2], [0, 1]]"
  "edge_stack (tj path5_analysed) = []"
  "is_cut (tj path5_analysed) = (\<lambda>_. False)(3 := True, 2 := True, 1 := True)"
  unfolding path5_analysed_def
  by (simp_all add: path5_def rows_eval dfs_eval)

lemma triangle_analysis:
  "find_biconnected_components 4 triangle = Some triangle_analysed"
  "gr triangle_analysed = gr triangle"
  "blocks (tj triangle_analysed) = [[2, 0, 1]]"
  "edge_stack (tj triangle_analysed) = []"
  "is_cut (tj triangle_analysed) = (\<lambda>_. False)"
  unfolding triangle_analysed_def
  by (simp_all add: triangle_def rows_eval dfs_eval)

lemma path5_planning:
  "leaf_blocks (lf path5_planned) = [0, 3]"
  "find_non_cut_in_block (tj path5_analysed) 0 = Some 4"
  "find_non_cut_in_block (tj path5_analysed) 3 = Some 0"
  "redundant_edges_added (gr path5_planned) = 1"
  "n_nodes (gr path5_planned) = 5"
  "exists_edge (gr path5_planned) 4 0" "\<not> exists_edge (gr path5_analysed) 4 0"
  "redundant_edge (gr path5_planned) 4 0" "redundant_edge (gr path5_planned) 0 4"
  unfolding path5_planned_def
  by (simp_all add: path5_analysis path5_def rows_eval plan_eval)

lemma path5_planned_neighbors:
  "neighbor_list (gr path5_planned) u =
     (if u < 5 then [[1, 4], [0, 2], [1, 3], [2, 4], [3, 0]] ! u else [])"
proof -
  consider "u = 0" | "u = 1" | "u = 2" | "u = 3" | "u = 4" | "5 \<le> u"
    by linarith
  then show ?thesis
    unfolding path5_planned_def
    by cases (simp_all add: path5_analysis path5_def rows_eval plan_eval)
qed

lemma path5_reanalysis:
  "find_biconnected_components 6 path5_planned = Some path5_reanalysed"
  "blocks (tj path5_reanalysed) = [[4, 0, 3, 2, 1]]"
  "is_cut (tj path5_reanalysed) = (\<lambda>_. False)"
  unfolding path5_reanalysed_def
  by (simp_all add: path5_planning path5_planned_neighbors dfs_eval)

lemma star7_planning:
  "leaf_blocks (lf star7_planned) = [0, 1, 2, 3, 4]"
  "redundant_edges_added (gr star7_planned) = 3"
  "map (degree (gr star7_analysed)) [0, 1, 2, 3, 4, 5, 6] = [6, 1, 1, 1, 1, 1, 1]"
  "map (degree (gr star7_planned)) [0, 1, 2, 3, 4, 5, 6] = [6, 1, 3, 2, 2, 2, 2]"
  "map (neighbor_list (gr star7_planned)) [0, 1, 2, 3, 4, 5, 6]
     = [[1, 2, 3, 4, 5, 6], [0], [0, 3, 6], [0, 2], [0, 5], [0, 4], [0, 2]]"
  unfolding star7_planned_def
  by (simp_all add: star7_analysis star7_def rows_eval plan_eval)

section \<open>Scenarios\<close>

text \<open>
  Claim C1 (every edge belongs to exactly one block), evaluated on the graph with the
  edges \<open>0-1\<close> and \<open>0-2\<close>. Node \<open>0\<close> is the DFS root and has two children. The block of the
  first child is never closed: when the first child returns the root has one child, so the
  cut-vertex test fails and nothing is popped; when the loop ends the root has two
  children, so the code for the remaining edges is skipped. The edge \<open>(0,1)\<close> stays on the
  stack and belongs to no block.
\<close>

theorem fork3_edge_in_no_block:
  "find_biconnected_components 4 fork3 = Some fork3_analysed \<and>
   exists_edge (gr fork3_analysed) 0 1 \<and>
   blocks (tj fork3_analysed) = [[0, 2]] \<and>
   blocks_of_edge (tj fork3_analysed) 0 1 = [] \<and>
   edge_stack (tj fork3_analysed) = [(0, 1)]"
  by (simp add: fork3_analysis blocks_of_edge_def edge_in_block_def)
     (simp add: fork3_def rows_eval)

text \<open>
  Claim C3 (star with centre \<open>0\<close> and leaves \<open>1..6\<close>), evaluated. The analyzer reports the
  cut vertex \<open>0\<close> but only five blocks: the bridge \<open>0-1\<close> is left on the edge stack. The
  planner pairs the five leaf blocks \<open>(2,3)\<close>, \<open>(4,5)\<close>, \<open>(6,2)\<close>: it adds three edges, the
  degree of leaf \<open>2\<close> grows by two, leaf \<open>1\<close> gets no new link, and the centre keeps its
  degree.
\<close>

theorem star7_scenario:
  "find_biconnected_components 8 star7 = Some star7_analysed \<and>
   {v. is_cut (tj star7_analysed) v} = {0} \<and>
   blocks (tj star7_analysed) = [[0, 2], [0, 3], [0, 4], [0, 5], [0, 6]] \<and>
   length (blocks (tj star7_analysed)) = 5 \<and>
   edge_stack (tj star7_analysed) = [(0, 1)] \<and>
   leaf_blocks (lf star7_planned) = [0, 1, 2, 3, 4] \<and>
   redundant_edges_added (gr star7_planned) = 3 \<and>
   map (degree (gr star7_analysed)) [0, 1, 2, 3, 4, 5, 6] = [6, 1, 1, 1, 1, 1, 1] \<and>
   map (degree (gr star7_planned)) [0, 1, 2, 3, 4, 5, 6] = [6, 1, 3, 2, 2, 2, 2] \<and>
   map (neighbor_list (gr star7_planned)) [0, 1, 2, 3, 4, 5, 6]
     = [[1, 2, 3, 4, 5, 6], [0], [0, 3, 6], [0, 2], [0, 5], [0, 4], [0, 2]]"
  using star7_analysis star7_planning by simp

text \<open>
  Claim C4 (path \<open>0-1-2-3-4\<close>) as stated says that the analyzer reports three blocks.
  The path has four edges and the analyzer reports four blocks.
\<close>

theorem path5_not_three_blocks:
  "find_biconnected_components 6 path5 = Some path5_analysed \<and>
   length (blocks (tj path5_analysed)) \<noteq> 3"
  by (simp add: path5_analysis)

text \<open>
  Claim C4, amended: on the path \<open>0-1-2-3-4\<close> the analyzer reports the cut vertices
  \<open>{1,2,3}\<close> and four blocks, each a single edge, of which exactly the two at the ends
  (\<open>{3,4}\<close> at index 0 and \<open>{0,1}\<close> at index 3) are leaf blocks; the planner adds exactly
  one edge, between the representatives \<open>4\<close> and \<open>0\<close> of those two blocks, tagged
  redundant; the analyzer run again reports no cut vertex and a single block.
\<close>

theorem path5_scenario:
  "find_biconnected_components 6 path5 = Some path5_analysed \<and>
   {v. is_cut (tj path5_analysed) v} = {1, 2, 3} \<and>
   blocks (tj path5_analysed) = [[3, 4], [2, 3], [1, 2], [0, 1]] \<and>
   leaf_blocks (lf path5_planned) = [0, 3] \<and>
   find_non_cut_in_block (tj path5_analysed) 0 = Some 4 \<and>
   find_non_cut_in_block (tj path5_analysed) 3 = Some 0 \<and>
   redundant_edges_added (gr path5_planned) = 1 \<and>
   \<not> exists_edge (gr path5_analysed) 4 0 \<and>
   exists_edge (gr path5_planned) 4 0 \<and>
   redundant_edge (gr path5_planned) 4 0 \<and>
   map (neighbor_list (gr path5_planned)) [0, 1, 2, 3, 4]
     = [[1, 4], [0, 2], [1, 3], [2, 4], [3, 0]] \<and>
   find_biconnected_components 6 path5_planned = Some path5_reanalysed \<and>
   {v. is_cut (tj path5_reanalysed) v} = {} \<and>
   blocks (tj path5_reanalysed) = [[4, 0, 3, 2, 1]]"
  using path5_analysis path5_planning path5_reanalysis
  by (simp add: path5_planned_neighbors) auto

section \<open>The redundancy planner\<close>

lemma identify_leaf_blocks_spec:
  "identify_leaf_blocks s =
     s\<lparr>lf := \<lparr>is_leaf_block = spec_leaf (tj s), leaf_blocks = spec_classify (tj s)\<rparr>\<rparr>"
proof -
  let ?n = "length (blocks (tj s))"
  have a: "(b \<in> set [0..<?n] \<and> cut_count (tj s) b = 1) = spec_leaf (tj s) b" for b
    by (auto simp add: spec_leaf_def cut_count_def block_of_def)
  have b: "filter (\<lambda>b. cut_count (tj s) b = 1) [0..<?n] = spec_classify (tj s)"
    unfolding spec_classify_def
    by (rule filter_cong) (auto simp add: spec_leaf_def cut_count_def block_of_def)
  have "foldl (classify_block (tj s)) \<lparr>is_leaf_block = (\<lambda>_. False), leaf_blocks = []\<rparr> [0..<?n]
      = \<lparr>is_leaf_block = spec_leaf (tj s), leaf_blocks = spec_classify (tj s)\<rparr>"
    unfolding foldl_classify using a b by (simp add: fun_eq_iff)
  then show ?thesis by (simp add: identify_leaf_blocks_def)
qed

lemma fold_planner_is_spec_planner: "fold_planner s = spec_planner s"
  by (simp add: fold_planner_def spec_planner_def identify_leaf_blocks_spec Let_def)

text \<open>
  Claim C6. The planner computes what the specification describes, for every state. The
  leaf list is the list of the indices, in discovery order, of the blocks with exactly one
  member flagged as a cut vertex (\<open>spec_classify\<close>); the planner clears the counter, goes
  through the pairs \<open>spec_pairs\<close> of that list in order (\<open>(leaf[0], leaf[1])\<close>,
  \<open>(leaf[2], leaf[3])\<close>, ..., a last unpaired leaf with \<open>leaf[0]\<close>) and applies
  \<open>spec_connect\<close> to each: a link between the two representatives, tagged redundant in both
  directions and counted, exactly when they differ, are not yet linked and both have a
  free neighbour slot. On every block that is not empty the source's
  \<^verbatim>\<open>find_non_cut_in_block\<close> returns the representative, which is a member of the block:
  one that is not a cut vertex if the block has such a member, and the first member
  otherwise.
\<close>

theorem planner_refines_spec:
  "add_optimal_redundant_edges s = spec_planner s \<and>
   leaf_blocks (lf (add_optimal_redundant_edges s)) = spec_classify (tj s) \<and>
   (block_of (tj s) b \<noteq> [] \<longrightarrow>
      find_non_cut_in_block (tj s) b = Some (representative (tj s) b) \<and>
      representative (tj s) b \<in> set (block_of (tj s) b) \<and>
      ((\<exists>x \<in> set (block_of (tj s) b). \<not> is_cut (tj s) x)
         \<longrightarrow> \<not> is_cut (tj s) (representative (tj s) b)) \<and>
      ((\<forall>x \<in> set (block_of (tj s) b). is_cut (tj s) x)
         \<longrightarrow> representative (tj s) b = block_of (tj s) b ! 0))"
proof (intro conjI impI)
  show eq: "add_optimal_redundant_edges s = spec_planner s"
    by (simp add: planner_is_fold_planner fold_planner_is_spec_planner)
  show "leaf_blocks (lf (add_optimal_redundant_edges s)) = spec_classify (tj s)"
    unfolding eq by (simp add: spec_planner_def)
next
  assume ne: "block_of (tj s) b \<noteq> []"
  show "find_non_cut_in_block (tj s) b = Some (representative (tj s) b)"
    using ne by (rule find_non_cut_representative)
  show "representative (tj s) b \<in> set (block_of (tj s) b)"
  proof (cases "filter (\<lambda>node. \<not> is_cut (tj s) node) (block_of (tj s) b)")
    case Nil
    then show ?thesis using ne by (simp add: representative_def)
  next
    case (Cons x xs)
    have "x \<in> set (filter (\<lambda>node. \<not> is_cut (tj s) node) (block_of (tj s) b))"
      unfolding Cons by simp
    then have "x \<in> set (block_of (tj s) b)"
      by simp
    then show ?thesis by (simp add: representative_def Cons)
  qed
  show "\<not> is_cut (tj s) (representative (tj s) b)"
    if "\<exists>x \<in> set (block_of (tj s) b). \<not> is_cut (tj s) x"
  proof (cases "filter (\<lambda>node. \<not> is_cut (tj s) node) (block_of (tj s) b)")
    case Nil
    then show ?thesis using that by (auto simp add: filter_empty_conv)
  next
    case (Cons x xs)
    have "x \<in> set (filter (\<lambda>node. \<not> is_cut (tj s) node) (block_of (tj s) b))"
      unfolding Cons by simp
    then have "\<not> is_cut (tj s) x"
      by simp
    then show ?thesis by (simp add: representative_def Cons)
  qed
  show "representative (tj s) b = block_of (tj s) b ! 0"
    if "\<forall>x \<in> set (block_of (tj s) b). is_cut (tj s) x"
  proof -
    have "filter (\<lambda>node. \<not> is_cut (tj s) node) (block_of (tj s) b) = []"
      using that by (simp add: filter_empty_conv)
    then show ?thesis using ne by (simp add: representative_def hd_conv_nth)
  qed
qed

text \<open>
  The analysed path \<open>0-1-2-3-4\<close>: block 1 is \<open>[2, 3]\<close>, both cut vertices, and its
  representative is its first member; the leaf list is \<open>[0, 3]\<close>, the one pair is
  \<open>(0, 3)\<close> with the representatives \<open>4\<close> and \<open>0\<close>, which the planner links and tags.
\<close>

theorem planner_refines_spec_witness:
  "block_of (tj path5_analysed) 1 = [2, 3] \<and>
   is_cut (tj path5_analysed) 2 \<and> is_cut (tj path5_analysed) 3 \<and>
   find_non_cut_in_block (tj path5_analysed) 1 = Some 2 \<and>
   spec_classify (tj path5_analysed) = [0, 3] \<and>
   spec_pairs (spec_classify (tj path5_analysed)) = [(0, 3)] \<and>
   representative (tj path5_analysed) 0 = 4 \<and>
   representative (tj path5_analysed) 3 = 0 \<and>
   \<not> exists_edge (gr path5_analysed) 4 0 \<and>
   add_optimal_redundant_edges path5_analysed = spec_planner path5_analysed \<and>
   leaf_blocks (lf (add_optimal_redundant_edges path5_analysed)) = [0, 3] \<and>
   exists_edge (gr (add_optimal_redundant_edges path5_analysed)) 4 0 \<and>
   exists_edge (gr (add_optimal_redundant_edges path5_analysed)) 0 4 \<and>
   redundant_edge (gr (add_optimal_redundant_edges path5_analysed)) 4 0 \<and>
   redundant_edge (gr (add_optimal_redundant_edges path5_analysed)) 0 4 \<and>
   neighbor_list (gr (add_optimal_redundant_edges path5_analysed)) 4 = [3, 0] \<and>
   neighbor_list (gr (add_optimal_redundant_edges path5_analysed)) 0 = [1, 4] \<and>
   redundant_edges_added (gr (add_optimal_redundant_edges path5_analysed)) = 1"
proof -
  note t = planner_refines_spec [of path5_analysed 1]
  have b1: "block_of (tj path5_analysed) 1 = [2, 3]"
    by (simp add: block_of_def path5_analysis)
  have cl: "spec_classify (tj path5_analysed) = [0, 3]"
    by (simp add: spec_classify_def spec_leaf_def path5_analysis upt_rec)
  have rp: "representative (tj path5_analysed) 0 = 4" "representative (tj path5_analysed) 3 = 0"
    "representative (tj path5_analysed) 1 = 2"
    by (simp_all add: representative_def block_of_def path5_analysis)
  have sp: "spec_planner path5_analysed =
      path5_analysed\<lparr>lf := \<lparr>is_leaf_block = spec_leaf (tj path5_analysed), leaf_blocks = [0, 3]\<rparr>,
        gr := insert_redundant 4 0 ((gr path5)\<lparr>redundant_edges_added := 0\<rparr>)\<rparr>"
    by (simp add: spec_planner_def cl spec_pairs_def spec_connect_def rp Let_def
        path5_analysis(2) path5_def rows_eval MAX_NEIGHBORS_def)
  have g: "\<not> exists_edge (gr path5_analysed) 4 0"
    by (simp add: path5_analysis(2) path5_def rows_eval)
  have nb: "neighbor_list (insert_redundant 4 0 ((gr path5)\<lparr>redundant_edges_added := 0\<rparr>)) 4 = [3, 0]"
    "neighbor_list (insert_redundant 4 0 ((gr path5)\<lparr>redundant_edges_added := 0\<rparr>)) 0 = [1, 4]"
    by (simp_all add: neighbor_list_insert_redundant path5_def rows_eval)
  from t b1 rp(3) have f: "find_non_cut_in_block (tj path5_analysed) 1 = Some 2" by simp
  from t have eq: "add_optimal_redundant_edges path5_analysed = spec_planner path5_analysed"
    by simp
  show ?thesis
    unfolding eq
    using b1 f cl rp(1,2) g nb
    by (simp add: sp spec_pairs_def path5_analysis path5_def rows_eval)
qed

text \<open>
  Claim C9. When the classification of the current analysis yields no leaf block (as for
  an already biconnected graph), the planner adds no edge: the adjacency rows, the
  degrees, the edge matrix and the redundancy tags are what they were, and the counter of
  added edges is zero.
\<close>

theorem planner_without_leaf_blocks:
  assumes "leaf_blocks (lf (identify_leaf_blocks s)) = []"
  shows "gr (add_optimal_redundant_edges s) = (gr s)\<lparr>redundant_edges_added := 0\<rparr> \<and>
         redundant_edges_added (gr (add_optimal_redundant_edges s)) = 0 \<and>
         neighbors (gr (add_optimal_redundant_edges s)) = neighbors (gr s) \<and>
         degree (gr (add_optimal_redundant_edges s)) = degree (gr s) \<and>
         exists_edge (gr (add_optimal_redundant_edges s)) = exists_edge (gr s) \<and>
         redundant_edge (gr (add_optimal_redundant_edges s)) = redundant_edge (gr s) \<and>
         edge_set (gr (add_optimal_redundant_edges s)) = edge_set (gr s)"
proof -
  have "gr (add_optimal_redundant_edges s) = (gr s)\<lparr>redundant_edges_added := 0\<rparr>"
    using assms by (simp add: planner_is_fold_planner fold_planner_def spec_pairs_def Let_def)
  then show ?thesis by (simp add: edge_set_def)
qed

theorem planner_without_leaf_blocks_witness:
  "leaf_blocks (lf (identify_leaf_blocks triangle_analysed)) = [] \<and>
   blocks (tj triangle_analysed) = [[2, 0, 1]] \<and>
   gr (add_optimal_redundant_edges triangle_analysed)
     = (gr triangle_analysed)\<lparr>redundant_edges_added := 0\<rparr> \<and>
   edge_set (gr (add_optimal_redundant_edges triangle_analysed)) = edge_set (gr triangle_analysed)"
proof -
  have h: "leaf_blocks (lf (identify_leaf_blocks triangle_analysed)) = []"
    by (simp add: leaf_blocks_identify cut_count_def block_of_def triangle_analysis)
  show ?thesis
    using h planner_without_leaf_blocks [OF h] by (simp add: triangle_analysis)
qed

section \<open>The analyzer: fuel, totality, range\<close>

text \<open>More fuel does not change a result.\<close>

lemma dfs_fuel_mono:
  "tarjan_dfs_bicomp g f u t = Some r \<Longrightarrow> tarjan_dfs_bicomp g (f + k) u t = Some r"
  "dfs_loop g f u vs c t = Some cr \<Longrightarrow> dfs_loop g (f + k) u vs c t = Some cr"
proof (induction g f u t and g f u vs c t arbitrary: r and cr
       rule: tarjan_dfs_bicomp_dfs_loop.induct)
  case (1 g u t)
  then show ?case by simp
next
  case (2 g fuel u t)
  then show ?case by (auto split: option.splits)
next
  case (3 g fuel u children t)
  then show ?case by simp
next
  case (4 g fuel u v vs children t)
  show ?case
  proof (cases "visited t v")
    case False
    let ?t0 = "push_edge u v (t\<lparr>parent_tarjan := (parent_tarjan t)(v := Some u)\<rparr>)"
    from "4.prems" False obtain t' where
      a: "tarjan_dfs_bicomp g fuel v ?t0 = Some t'" and
      b: "dfs_loop g fuel u vs (children + 1) (after_child u v (children + 1) t') = Some cr"
      by (auto split: option.splits)
    from "4.IH"(1) [OF False a] "4.IH"(2) [OF False a b] False
    show ?thesis by simp
  next
    case True
    show ?thesis
    proof (cases "Some v \<noteq> parent_tarjan t u \<and> disc t v < disc t u")
      case c: True
      with True "4.prems" "4.IH"(3) [of cr] show ?thesis by auto
    next
      case c: False
      with True "4.prems" "4.IH"(4) [of cr] show ?thesis by auto
    qed
  qed
qed

lemma roots_loop_fuel_mono:
  "roots_loop g f is t = Some r \<Longrightarrow> roots_loop g (f + k) is t = Some r"
proof (induction "is" arbitrary: t)
  case Nil
  then show ?case by simp
next
  case (Cons i "is")
  show ?case
  proof (cases "visited t i")
    case True
    with Cons show ?thesis by simp
  next
    case False
    let ?t0 = "t\<lparr>parent_tarjan := (parent_tarjan t)(i := None)\<rparr>"
    from Cons.prems False obtain t' where
      a: "tarjan_dfs_bicomp g f i ?t0 = Some t'" and b: "roots_loop g f is t' = Some r"
      by (auto split: option.splits)
    from dfs_fuel_mono(1) [OF a, of k] Cons.IH [OF b] False show ?thesis by simp
  qed
qed

text \<open>The analyzer reads the graph through the neighbour rows only.\<close>

lemma dfs_same_rows:
  "\<forall>u. neighbor_list g' u = neighbor_list g u \<Longrightarrow>
     tarjan_dfs_bicomp g' f u t = tarjan_dfs_bicomp g f u t"
  "\<forall>u. neighbor_list g' u = neighbor_list g u \<Longrightarrow>
     dfs_loop g' f u vs c t = dfs_loop g f u vs c t"
proof (induction g f u t and g f u vs c t rule: tarjan_dfs_bicomp_dfs_loop.induct)
  case (1 g u t)
  show ?case by simp
next
  case (2 g fuel u t)
  then show ?case by simp
next
  case (3 g fuel u children t)
  show ?case by simp
next
  case (4 g fuel u v vs children t)
  then show ?case by (simp split: option.splits)
qed

lemma roots_loop_same_rows:
  assumes "\<forall>u. neighbor_list g' u = neighbor_list g u"
  shows "roots_loop g' f is t = roots_loop g f is t"
proof (induction "is" arbitrary: t)
  case Nil
  show ?case by simp
next
  case (Cons i "is")
  have "tarjan_dfs_bicomp g' f i (t\<lparr>parent_tarjan := (parent_tarjan t)(i := None)\<rparr>)
        = tarjan_dfs_bicomp g f i (t\<lparr>parent_tarjan := (parent_tarjan t)(i := None)\<rparr>)"
    using assms by (rule dfs_same_rows)
  then show ?case by (simp add: Cons.IH split: option.splits)
qed

section \<open>Totality of the analyzer\<close>

definition unvisited :: "graph \<Rightarrow> tarjan \<Rightarrow> nat set" where
  "unvisited g t = {v. v < n_nodes g \<and> \<not> visited t v}"

lemma finite_unvisited [simp]: "finite (unvisited g t)"
  by (simp add: unvisited_def)

lemma unvisited_mono:
  "\<forall>v. visited t v \<longrightarrow> visited r v \<Longrightarrow> card (unvisited g r) \<le> card (unvisited g t)"
  by (rule card_mono) (auto simp add: unvisited_def)

lemma visited_steps [simp]:
  "visited (push_edge u v t) = visited t"
  "visited (close_block u v t) = visited t"
  "visited (after_child u v c t) = visited t"
  "visited (back_edge u v t) = visited t"
  "visited (root_remaining u c t) = visited t"
  "visited (enter_node u t) = (visited t)(u := True)"
  by (simp_all add: push_edge_def close_block_def after_child_def back_edge_def
      root_remaining_def enter_node_def Let_def)

lemma unvisited_enter:
  "u < n_nodes g \<Longrightarrow> \<not> visited t u \<Longrightarrow>
   card (unvisited g (enter_node u t)) < card (unvisited g t)"
  by (rule psubset_card_mono) (auto simp add: unvisited_def)

lemma dfs_total:
  "in_range g \<Longrightarrow> u < n_nodes g \<Longrightarrow> \<not> visited t u \<Longrightarrow> card (unvisited g t) \<le> f \<Longrightarrow>
     \<exists>r. tarjan_dfs_bicomp g f u t = Some r \<and> (\<forall>v. visited t v \<longrightarrow> visited r v)"
  "in_range g \<Longrightarrow> set vs \<subseteq> {..<n_nodes g} \<Longrightarrow> card (unvisited g t) \<le> f \<Longrightarrow>
     \<exists>c' r. dfs_loop g f u vs c t = Some (c', r) \<and> (\<forall>v. visited t v \<longrightarrow> visited r v)"
proof (induction g f u t and g f u vs c t rule: tarjan_dfs_bicomp_dfs_loop.induct)
  case (1 g u t)
  then have "u \<in> unvisited g t" by (simp add: unvisited_def)
  then have "card (unvisited g t) \<noteq> 0" by (metis card_0_eq empty_iff finite_unvisited)
  with 1 show ?case by simp
next
  case (2 g fuel u t)
  have rows: "set (neighbor_list g u) \<subseteq> {..<n_nodes g}"
    using "2.prems"(1) by (auto simp add: in_range_def)
  have "card (unvisited g (enter_node u t)) \<le> fuel"
    using unvisited_enter [of u g t] "2.prems" by simp
  from "2.IH" [OF "2.prems"(1) rows this]
  obtain c' r where "dfs_loop g fuel u (neighbor_list g u) 0 (enter_node u t) = Some (c', r)"
    and "\<forall>v. visited (enter_node u t) v \<longrightarrow> visited r v"
    by blast
  then show ?case by simp
next
  case (3 g fuel u children t)
  show ?case by simp
next
  case (4 g fuel u v vs children t)
  have vs: "set vs \<subseteq> {..<n_nodes g}" and v: "v < n_nodes g"
    using "4.prems"(2) by simp_all
  show ?case
  proof (cases "visited t v")
    case False
    let ?t0 = "push_edge u v (t\<lparr>parent_tarjan := (parent_tarjan t)(v := Some u)\<rparr>)"
    have unv: "unvisited g ?t0 = unvisited g t"
      by (simp add: unvisited_def)
    from "4.IH"(1) [OF False "4.prems"(1) v] False unv "4.prems"(3)
    obtain t' where a: "tarjan_dfs_bicomp g fuel v ?t0 = Some t'"
      and m: "\<forall>w. visited t w \<longrightarrow> visited t' w"
      by auto
    let ?t1 = "after_child u v (children + 1) t'"
    have "card (unvisited g ?t1) \<le> card (unvisited g t)"
      using m by (intro unvisited_mono) simp
    then have "card (unvisited g ?t1) \<le> fuel"
      using "4.prems"(3) by simp
    from "4.IH"(2) [OF False a "4.prems"(1) vs this] m a False
    show ?thesis by auto
  next
    case True
    show ?thesis
    proof (cases "Some v \<noteq> parent_tarjan t u \<and> disc t v < disc t u")
      case c: True
      have "card (unvisited g (back_edge u v t)) \<le> fuel"
        using "4.prems"(3) by (simp add: unvisited_def)
      from "4.IH"(3) [OF _ c "4.prems"(1) vs this] True c
      show ?thesis by auto
    next
      case c: False
      from "4.IH"(4) [OF _ c "4.prems"(1) vs "4.prems"(3)] True c
      show ?thesis by auto
    qed
  qed
qed

lemma card_unvisited_le: "card (unvisited g t) \<le> n_nodes g"
proof -
  have "card (unvisited g t) \<le> card {..<n_nodes g}"
    by (rule card_mono) (auto simp add: unvisited_def)
  then show ?thesis by simp
qed

lemma roots_loop_total:
  assumes "in_range g" "n_nodes g \<le> f"
  shows "set is \<subseteq> {..<n_nodes g} \<Longrightarrow> \<exists>r. roots_loop g f is t = Some r"
proof (induction "is" arbitrary: t)
  case Nil
  show ?case by simp
next
  case (Cons i "is")
  show ?case
  proof (cases "visited t i")
    case True
    with Cons show ?thesis by simp
  next
    case False
    let ?t0 = "t\<lparr>parent_tarjan := (parent_tarjan t)(i := None)\<rparr>"
    have "card (unvisited g ?t0) \<le> f"
      using card_unvisited_le [of g ?t0] assms(2) by simp
    with dfs_total(1) [OF assms(1), of i ?t0 f] False Cons.prems
    obtain t' where "tarjan_dfs_bicomp g f i ?t0 = Some t'" by auto
    moreover from Cons have "\<exists>r. roots_loop g f is t' = Some r" by simp
    ultimately show ?thesis using False by simp
  qed
qed

lemma find_biconnected_components_total:
  assumes "in_range (gr s)" "n_nodes (gr s) \<le> fuel"
  shows "\<exists>t. find_biconnected_components fuel s = Some (s\<lparr>tj := t\<rparr>)"
proof -
  have "set [0..<n_nodes (gr s)] \<subseteq> {..<n_nodes (gr s)}"
    by auto
  from roots_loop_total [OF assms this, of reset_tarjan]
  obtain r where "roots_loop (gr s) fuel [0..<n_nodes (gr s)] reset_tarjan = Some r"
    by blast
  then have "find_biconnected_components fuel s = Some (s\<lparr>tj := r\<rparr>)"
    by (simp add: find_biconnected_components_def)
  then show ?thesis by blast
qed

text \<open>With enough fuel the result does not depend on the fuel.\<close>

lemma find_biconnected_components_fuel:
  assumes "find_biconnected_components f s = Some r" "f \<le> f'"
  shows "find_biconnected_components f' s = Some r"
proof -
  from assms(2) obtain k where k: "f' = f + k"
    using le_Suc_ex by blast
  from assms(1) obtain t where
    t: "roots_loop (gr s) f [0..<n_nodes (gr s)] reset_tarjan = Some t" and r: "r = s\<lparr>tj := t\<rparr>"
    by (auto simp add: find_biconnected_components_def split: option.splits)
  from roots_loop_fuel_mono [OF t, of k] r k show ?thesis
    by (simp add: find_biconnected_components_def)
qed

lemma find_biconnected_components_same_rows:
  assumes "n_nodes (gr s') = n_nodes (gr s)" "\<forall>u. neighbor_list (gr s') u = neighbor_list (gr s) u"
  shows "map_option tj (find_biconnected_components f s')
         = map_option tj (find_biconnected_components f s)"
  using roots_loop_same_rows [OF assms(2), of f "[0..<n_nodes (gr s)]" reset_tarjan] assms(1)
  by (simp add: find_biconnected_components_def split: option.splits)

section \<open>Node ids on the edge stack and in the blocks\<close>

definition nodes_below :: "nat \<Rightarrow> tarjan \<Rightarrow> bool" where
  "nodes_below n t =
     ((\<forall>e \<in> set (edge_stack t). fst e < n \<and> snd e < n) \<and>
      (\<forall>b \<in> set (blocks t). \<forall>x \<in> set b. x < n))"

lemma add_edge_to_block_set:
  "set (snd (add_edge_to_block e acc)) \<subseteq> set (snd acc) \<union> {fst e, snd e}"
  by (auto simp add: add_edge_to_block_def add_to_block_def)

lemma pop_until_nodes:
  "pop_until u v st acc = (st', acc') \<Longrightarrow>
   set st' \<subseteq> set st \<and> set (snd acc') \<subseteq> set (snd acc) \<union> fst ` set st \<union> snd ` set st"
proof (induction u v st acc arbitrary: st' acc' rule: pop_until.induct)
  case (1 u v acc)
  then show ?case by auto
next
  case (2 u v e st acc)
  let ?a = "add_edge_to_block e acc"
  note sub = add_edge_to_block_set [of e acc]
  show ?case
  proof (cases "(fst e = u \<and> snd e = v) \<or> st = []")
    case True
    with "2.prems" have "st' = st" "acc' = ?a" by (simp_all add: Let_def)
    with sub show ?thesis by auto
  next
    case False
    with "2.prems" have "pop_until u v st ?a = (st', acc')" by (simp add: Let_def)
    from "2.IH" [OF refl False this] sub show ?thesis by auto
  qed
qed

lemma pop_all_nodes:
  "set (snd (pop_all st acc)) \<subseteq> set (snd acc) \<union> fst ` set st \<union> snd ` set st"
proof (induction st arbitrary: acc)
  case Nil
  show ?case by simp
next
  case (Cons e st)
  from Cons [of "add_edge_to_block e acc"] add_edge_to_block_set [of e acc]
  show ?case by auto
qed

lemma nodes_below_steps:
  "nodes_below n t \<Longrightarrow> nodes_below n (enter_node u t)"
  "nodes_below n t \<Longrightarrow> nodes_below n (t\<lparr>parent_tarjan := p\<rparr>)"
  "nodes_below n t \<Longrightarrow> u < n \<Longrightarrow> v < n \<Longrightarrow> nodes_below n (push_edge u v t)"
  by (auto simp add: nodes_below_def enter_node_def push_edge_def)

lemma nodes_below_close_block:
  assumes "nodes_below n t"
  shows "nodes_below n (close_block u v t)"
proof (cases "length (blocks t) < MAX_BLOCKS")
  case False
  with assms show ?thesis by (simp add: close_block_def)
next
  case True
  obtain st' acc' where p: "pop_until u v (edge_stack t) (\<lambda>_. False, []) = (st', acc')"
    by (cases "pop_until u v (edge_stack t) (\<lambda>_. False, [])") auto
  from pop_until_nodes [OF p] assms
  have "(\<forall>e \<in> set st'. fst e < n \<and> snd e < n) \<and> (\<forall>x \<in> set (snd acc'). x < n)"
    by (fastforce simp add: nodes_below_def)
  with assms True p show ?thesis
    by (auto simp add: close_block_def nodes_below_def Let_def)
qed

lemma nodes_below_after_child:
  "nodes_below n t \<Longrightarrow> nodes_below n (after_child u v c t)"
proof -
  assume a: "nodes_below n t"
  have b: "\<And>t f. nodes_below n t \<Longrightarrow> nodes_below n (t\<lparr>low := f\<rparr>)"
    "\<And>t f. nodes_below n t \<Longrightarrow> nodes_below n (t\<lparr>is_cut := f\<rparr>)"
    by (simp_all add: nodes_below_def)
  show ?thesis
    using a by (auto simp add: after_child_def Let_def intro!: nodes_below_close_block b)
qed

lemma nodes_below_back_edge:
  "nodes_below n t \<Longrightarrow> u < n \<Longrightarrow> v < n \<Longrightarrow> nodes_below n (back_edge u v t)"
  using nodes_below_steps(3) [of n t u v]
  by (auto simp add: back_edge_def Let_def nodes_below_def)

lemma nodes_below_root_remaining:
  assumes "nodes_below n t"
  shows "nodes_below n (root_remaining u c t)"
proof -
  from pop_all_nodes [of "edge_stack t" "(\<lambda>_. False, [])"] assms
  have "\<forall>x \<in> set (snd (pop_all (edge_stack t) (\<lambda>_. False, []))). x < n"
    by (fastforce simp add: nodes_below_def)
  with assms show ?thesis
    by (auto simp add: root_remaining_def nodes_below_def)
qed

lemma dfs_nodes_below:
  "in_range g \<Longrightarrow> u < n_nodes g \<Longrightarrow> nodes_below (n_nodes g) t \<Longrightarrow>
     tarjan_dfs_bicomp g f u t = Some r \<Longrightarrow> nodes_below (n_nodes g) r"
  "in_range g \<Longrightarrow> u < n_nodes g \<Longrightarrow> set vs \<subseteq> {..<n_nodes g} \<Longrightarrow> nodes_below (n_nodes g) t \<Longrightarrow>
     dfs_loop g f u vs c t = Some cr \<Longrightarrow> nodes_below (n_nodes g) (snd cr)"
proof (induction g f u t and g f u vs c t arbitrary: r and cr
       rule: tarjan_dfs_bicomp_dfs_loop.induct)
  case (1 g u t)
  then show ?case by simp
next
  case (2 g fuel u t)
  have rows: "set (neighbor_list g u) \<subseteq> {..<n_nodes g}"
    using "2.prems"(1) by (auto simp add: in_range_def)
  from "2.prems"(4) obtain c' t' where
    l: "dfs_loop g fuel u (neighbor_list g u) 0 (enter_node u t) = Some (c', t')"
    and r: "r = root_remaining u c' t'"
    by (auto split: option.splits)
  from "2.IH" [OF "2.prems"(1,2) rows nodes_below_steps(1) [OF "2.prems"(3)] l]
  show ?case unfolding r by (simp add: nodes_below_root_remaining)
next
  case (3 g fuel u children t)
  then show ?case by auto
next
  case (4 g fuel u v vs children t)
  have vs: "set vs \<subseteq> {..<n_nodes g}" and v: "v < n_nodes g"
    using "4.prems"(3) by simp_all
  show ?case
  proof (cases "visited t v")
    case False
    let ?t0 = "push_edge u v (t\<lparr>parent_tarjan := (parent_tarjan t)(v := Some u)\<rparr>)"
    from "4.prems"(5) False obtain t' where
      a: "tarjan_dfs_bicomp g fuel v ?t0 = Some t'" and
      b: "dfs_loop g fuel u vs (children + 1) (after_child u v (children + 1) t') = Some cr"
      by (auto split: option.splits)
    have "nodes_below (n_nodes g) ?t0"
      using "4.prems"(2,4) v by (intro nodes_below_steps)
    from "4.IH"(1) [OF False "4.prems"(1) v this a]
    have "nodes_below (n_nodes g) (after_child u v (children + 1) t')"
      by (rule nodes_below_after_child)
    from "4.IH"(2) [OF False a "4.prems"(1,2) vs this b] show ?thesis .
  next
    case True
    show ?thesis
    proof (cases "Some v \<noteq> parent_tarjan t u \<and> disc t v < disc t u")
      case c: True
      have n: "nodes_below (n_nodes g) (back_edge u v t)"
        using "4.prems"(2,4) v by (intro nodes_below_back_edge)
      from "4.prems"(5) True c
      have "dfs_loop g fuel u vs children (back_edge u v t) = Some cr" by simp
      from "4.IH"(3) [OF _ c "4.prems"(1,2) vs n this] True show ?thesis by simp
    next
      case c: False
      from "4.prems"(5) True c
      have "dfs_loop g fuel u vs children t = Some cr" by auto
      from "4.IH"(4) [OF _ c "4.prems"(1,2) vs "4.prems"(4) this] True show ?thesis by simp
    qed
  qed
qed

lemma roots_loop_nodes_below:
  assumes "in_range g"
  shows "set is \<subseteq> {..<n_nodes g} \<Longrightarrow> nodes_below (n_nodes g) t \<Longrightarrow>
         roots_loop g f is t = Some r \<Longrightarrow> nodes_below (n_nodes g) r"
proof (induction "is" arbitrary: t)
  case Nil
  then show ?case by simp
next
  case (Cons i "is")
  show ?case
  proof (cases "visited t i")
    case True
    with Cons show ?thesis by simp
  next
    case False
    let ?t0 = "t\<lparr>parent_tarjan := (parent_tarjan t)(i := None)\<rparr>"
    from Cons.prems(3) False obtain t' where
      a: "tarjan_dfs_bicomp g f i ?t0 = Some t'" and b: "roots_loop g f is t' = Some r"
      by (auto split: option.splits)
    have "nodes_below (n_nodes g) ?t0"
      using Cons.prems(2) by (rule nodes_below_steps)
    from dfs_nodes_below(1) [OF assms _ this a] Cons.prems(1)
    have "nodes_below (n_nodes g) t'" by simp
    with Cons.IH [OF _ _ b] Cons.prems(1) show ?thesis by simp
  qed
qed

lemma find_biconnected_components_nodes_below:
  assumes "in_range (gr s)" "find_biconnected_components f s = Some r"
  shows "nodes_below (n_nodes (gr s)) (tj r)"
proof -
  from assms(2) obtain t where
    t: "roots_loop (gr s) f [0..<n_nodes (gr s)] reset_tarjan = Some t" and r: "r = s\<lparr>tj := t\<rparr>"
    by (auto simp add: find_biconnected_components_def split: option.splits)
  have "nodes_below (n_nodes (gr s)) reset_tarjan"
    by (simp add: nodes_below_def reset_tarjan_def)
  have "set [0..<n_nodes (gr s)] \<subseteq> {..<n_nodes (gr s)}"
    by auto
  from roots_loop_nodes_below [OF assms(1) this \<open>nodes_below (n_nodes (gr s)) reset_tarjan\<close> t] r
  show ?thesis by simp
qed

section \<open>Invariants of the graph store\<close>

definition store_ok :: "graph \<Rightarrow> bool" where
  "store_ok g =
     (degree_bounded g \<and> adjacency_symmetric g \<and> in_range g \<and> exists_edge_symmetric g)"

lemma degree_consistent_always: "degree_consistent g"
  by (simp add: degree_consistent_def neighbor_list_def)

lemma store_ok_upd [simp]:
  "store_ok (g\<lparr>original_edges := k\<rparr>) = store_ok g"
  "store_ok (g\<lparr>redundant_edges_added := k\<rparr>) = store_ok g"
  by (simp_all add: store_ok_def degree_bounded_def adjacency_symmetric_def in_range_def
      exists_edge_symmetric_def)

lemma store_ok_link_nodes:
  assumes "store_ok g" "u \<noteq> v" "u < n_nodes g" "v < n_nodes g"
    "degree g u < MAX_NEIGHBORS" "degree g v < MAX_NEIGHBORS"
  shows "store_ok (link_nodes u v g)"
proof -
  have "degree_bounded (link_nodes u v g)"
    using assms by (simp add: store_ok_def degree_bounded_def degree_link_nodes)
  moreover have "adjacency_symmetric (link_nodes u v g)"
    using assms(1,2)
    by (auto simp add: store_ok_def adjacency_symmetric_def neighbor_list_link_nodes)
  moreover have "in_range (link_nodes u v g)"
    using assms(1,2,3,4)
    by (auto simp add: store_ok_def in_range_def neighbor_list_link_nodes split: if_splits)
  moreover have "exists_edge_symmetric (link_nodes u v g)"
    using assms(1)
    by (auto simp add: store_ok_def exists_edge_symmetric_def exists_edge_link_nodes)
  ultimately show ?thesis by (simp add: store_ok_def)
qed

lemma store_ok_insert_redundant:
  assumes "store_ok g" "u \<noteq> v" "u < n_nodes g" "v < n_nodes g"
    "degree g u < MAX_NEIGHBORS" "degree g v < MAX_NEIGHBORS"
  shows "store_ok (insert_redundant u v g)"
proof -
  have "degree_bounded (insert_redundant u v g)"
    using assms by (simp add: store_ok_def degree_bounded_def degree_insert_redundant)
  moreover have "adjacency_symmetric (insert_redundant u v g)"
    using assms(1,2)
    by (auto simp add: store_ok_def adjacency_symmetric_def neighbor_list_insert_redundant)
  moreover have "in_range (insert_redundant u v g)"
    using assms(1,2,3,4)
    by (auto simp add: store_ok_def in_range_def neighbor_list_insert_redundant split: if_splits)
  moreover have "exists_edge_symmetric (insert_redundant u v g)"
    using assms(1) by (auto simp add: store_ok_def exists_edge_symmetric_def)
  ultimately show ?thesis by (simp add: store_ok_def)
qed

subsection \<open>The generator\<close>

lemma backbone_step_ok:
  assumes "store_ok g" "0 < i" "i < n_nodes g"
  shows "store_ok (backbone_step rnd g i) \<and> n_nodes (backbone_step rnd g i) = n_nodes g"
proof -
  let ?p = "rnd (i - 1) mod i"
  have p: "?p < i" using assms(2) by simp
  then have "?p \<noteq> i" "?p < n_nodes g" using assms(3) by simp_all
  then show ?thesis
    using assms store_ok_link_nodes [of g i ?p]
    by (auto simp add: backbone_step_def Let_def)
qed

lemma foldl_backbone_ok:
  "store_ok g \<Longrightarrow> \<forall>i \<in> set is. 0 < i \<and> i < n_nodes g \<Longrightarrow>
   store_ok (foldl (backbone_step rnd) g is)
   \<and> n_nodes (foldl (backbone_step rnd) g is) = n_nodes g"
proof (induction "is" arbitrary: g)
  case Nil
  then show ?case by simp
next
  case (Cons i "is")
  from backbone_step_ok [of g i rnd] Cons.prems
  have a: "store_ok (backbone_step rnd g i)" "n_nodes (backbone_step rnd g i) = n_nodes g"
    by simp_all
  from Cons.IH [OF a(1)] a(2) Cons.prems(2) show ?case by simp
qed

lemma tree_backbone_ok:
  "store_ok g \<Longrightarrow> store_ok (tree_backbone rnd g) \<and> n_nodes (tree_backbone rnd g) = n_nodes g"
  unfolding tree_backbone_def by (rule foldl_backbone_ok) auto

lemma cross_step_ok:
  assumes "store_ok g" "0 < n_nodes g"
  shows "store_ok (snd (cross_step rnd accept k g))
         \<and> n_nodes (snd (cross_step rnd accept k g)) = n_nodes g"
proof -
  let ?u = "rnd k mod n_nodes g" and ?v = "rnd (k + 1) mod n_nodes g"
  have uv: "?u < n_nodes g" "?v < n_nodes g" using assms(2) by simp_all
  have "store_ok (link_nodes ?u ?v g)"
    if "?u \<noteq> ?v" "degree g ?u < MAX_NEIGHBORS" "degree g ?v < MAX_NEIGHBORS"
    using assms(1) that(1) uv that(2,3) by (rule store_ok_link_nodes)
  then show ?thesis
    using assms(1) by (simp add: cross_step_def Let_def)
qed

lemma cross_edges_stop:
  "\<not> (original_edges g < target \<and> attempts < max_attempts) \<Longrightarrow>
   cross_edges rnd accept target max_attempts attempts k g = g"
  by (subst cross_edges.simps) auto

lemma cross_edges_go:
  "original_edges g < target \<and> attempts < max_attempts \<Longrightarrow>
   cross_edges rnd accept target max_attempts attempts k g =
     cross_edges rnd accept target max_attempts (attempts + 1)
       (fst (cross_step rnd accept k g)) (snd (cross_step rnd accept k g))"
  by (subst cross_edges.simps) simp

lemma cross_edges_ok:
  "store_ok g \<Longrightarrow> 0 < n_nodes g \<Longrightarrow>
   store_ok (cross_edges rnd accept target max_attempts attempts k g)
   \<and> n_nodes (cross_edges rnd accept target max_attempts attempts k g) = n_nodes g"
proof (induction rnd accept target max_attempts attempts k g rule: cross_edges.induct)
  case (1 rnd accept target max_attempts attempts k g)
  show ?case
  proof (cases "original_edges g < target \<and> attempts < max_attempts")
    case False
    then show ?thesis using "1.prems" by (simp add: cross_edges_stop)
  next
    case True
    note step = cross_step_ok [OF "1.prems", of rnd accept k]
    from "1.IH" [OF True] step "1.prems"(2)
    show ?thesis by (simp add: cross_edges_go [OF True])
  qed
qed

lemma generate_ok:
  assumes "store_ok (gr s)" "0 < n_nodes (gr s)"
  shows "store_ok (gr (generate_random_topology rnd accept target s))"
    "n_nodes (gr (generate_random_topology rnd accept target s)) = n_nodes (gr s)"
    "tj (generate_random_topology rnd accept target s) = tj s"
proof -
  from tree_backbone_ok [OF assms(1), of rnd]
  have a: "store_ok (tree_backbone rnd (gr s))" "n_nodes (tree_backbone rnd (gr s)) = n_nodes (gr s)"
    by simp_all
  from cross_edges_ok [OF a(1), of rnd accept target "target * 3" 0 "n_nodes (gr s) - 1"] a(2) assms(2)
  show "store_ok (gr (generate_random_topology rnd accept target s))"
    "n_nodes (gr (generate_random_topology rnd accept target s)) = n_nodes (gr s)"
    by (simp_all add: generate_random_topology_def)
  show "tj (generate_random_topology rnd accept target s) = tj s"
    by (simp add: generate_random_topology_def)
qed

subsection \<open>The planner\<close>

lemma block_of_members:
  "nodes_below n t \<Longrightarrow> x \<in> set (block_of t b) \<Longrightarrow> x < n"
  by (auto simp add: nodes_below_def block_of_def split: if_splits)

lemma representative_member:
  "block_of t b \<noteq> [] \<Longrightarrow> representative t b \<in> set (block_of t b)"
proof (cases "filter (\<lambda>node. \<not> is_cut t node) (block_of t b)")
  case Nil
  assume "block_of t b \<noteq> []"
  with Nil show ?thesis by (simp add: representative_def)
next
  case (Cons x xs)
  have "x \<in> set (filter (\<lambda>node. \<not> is_cut t node) (block_of t b))"
    unfolding Cons by simp
  then have "x \<in> set (block_of t b)" by simp
  then show ?thesis by (simp add: representative_def Cons)
qed

lemma spec_connect_ok:
  assumes "store_ok (gr s)" "nodes_below (n_nodes (gr s)) (tj s)"
    "cut_count (tj s) (fst p) = 1" "cut_count (tj s) (snd p) = 1"
  shows "store_ok (gr (spec_connect s p)) \<and> n_nodes (gr (spec_connect s p)) = n_nodes (gr s)"
proof -
  let ?a = "representative (tj s) (fst p)" and ?b = "representative (tj s) (snd p)"
  have "?a \<in> set (block_of (tj s) (fst p))" "?b \<in> set (block_of (tj s) (snd p))"
    using assms(3,4) by (simp_all add: representative_member leaf_block_nonempty)
  then have r: "?a < n_nodes (gr s)" "?b < n_nodes (gr s)"
    using assms(2) by (auto dest: block_of_members)
  have "store_ok (insert_redundant ?a ?b (gr s))"
    if "?a \<noteq> ?b" "degree (gr s) ?a < MAX_NEIGHBORS" "degree (gr s) ?b < MAX_NEIGHBORS"
    using assms(1) that(1) r that(2,3) by (rule store_ok_insert_redundant)
  then show ?thesis
    using assms(1) by (simp add: spec_connect_def Let_def)
qed

lemma foldl_spec_connect_ok:
  "store_ok (gr s) \<Longrightarrow> nodes_below (n_nodes (gr s)) (tj s) \<Longrightarrow>
   \<forall>p \<in> set ps. cut_count (tj s) (fst p) = 1 \<and> cut_count (tj s) (snd p) = 1 \<Longrightarrow>
   store_ok (gr (foldl spec_connect s ps))
   \<and> n_nodes (gr (foldl spec_connect s ps)) = n_nodes (gr s)"
proof (induction ps arbitrary: s)
  case Nil
  then show ?case by simp
next
  case (Cons p ps)
  from spec_connect_ok [of s p] Cons.prems
  have a: "store_ok (gr (spec_connect s p))" "n_nodes (gr (spec_connect s p)) = n_nodes (gr s)"
    by simp_all
  from Cons.IH [of "spec_connect s p"] a Cons.prems show ?case by simp
qed

lemma spec_pairs_leaf:
  assumes "p \<in> set (spec_pairs (leaf_blocks (lf (identify_leaf_blocks s))))"
  shows "cut_count (tj s) (fst p) = 1 \<and> cut_count (tj s) (snd p) = 1"
proof -
  let ?ls = "leaf_blocks (lf (identify_leaf_blocks s))"
  from assms obtain first rest where fr: "?ls = first # rest"
    by (cases ?ls) (auto simp add: spec_pairs_def)
  from assms fr have "(fst p, snd p) \<in> set (pair_up first ?ls)"
    by (simp add: spec_pairs_def)
  from pair_up_members [OF this] fr
  have "fst p \<in> set ?ls" "snd p \<in> set ?ls" by auto
  then show ?thesis by (simp add: leaf_blocks_identify)
qed

lemma planner_ok:
  assumes "store_ok (gr s)" "nodes_below (n_nodes (gr s)) (tj s)"
  shows "store_ok (gr (add_optimal_redundant_edges s))"
    "n_nodes (gr (add_optimal_redundant_edges s)) = n_nodes (gr s)"
    "tj (add_optimal_redundant_edges s) = tj s"
proof -
  define s1 where "s1 = identify_leaf_blocks s"
  define s2 where "s2 = s1\<lparr>gr := (gr s1)\<lparr>redundant_edges_added := 0\<rparr>\<rparr>"
  define ps where "ps = spec_pairs (leaf_blocks (lf s1))"
  have r: "add_optimal_redundant_edges s = foldl spec_connect s2 ps"
    by (simp add: planner_is_fold_planner fold_planner_def s1_def s2_def ps_def Let_def)
  have s2: "store_ok (gr s2)" "n_nodes (gr s2) = n_nodes (gr s)" "tj s2 = tj s"
    using assms(1) by (simp_all add: s2_def s1_def)
  have leafy: "\<forall>p \<in> set ps. cut_count (tj s2) (fst p) = 1 \<and> cut_count (tj s2) (snd p) = 1"
    unfolding ps_def s1_def s2(3) using spec_pairs_leaf by blast
  from foldl_spec_connect_ok [OF s2(1) _ leafy] assms(2) s2
  show "store_ok (gr (add_optimal_redundant_edges s))"
    "n_nodes (gr (add_optimal_redundant_edges s)) = n_nodes (gr s)"
    unfolding r by simp_all
  show "tj (add_optimal_redundant_edges s) = tj s"
    unfolding r by (simp add: s2)
qed

subsection \<open>Sequences of operations\<close>

definition pipeline_ok :: "nat \<Rightarrow> state \<Rightarrow> bool" where
  "pipeline_ok n s =
     (store_ok (gr s) \<and> n_nodes (gr s) = n \<and> nodes_below n (tj s))"

lemma init_arrays_ok: "pipeline_ok (n_nodes (gr s)) (init_arrays s)"
  by (simp add: pipeline_ok_def init_arrays_def store_ok_def degree_bounded_def
      exists_edge_symmetric_def
      adjacency_symmetric_def in_range_def neighbor_list_def nodes_below_def)

lemma run_operation_ok:
  assumes "pipeline_ok n s" "0 < n" "enough_fuel n op"
  shows "\<exists>s'. run_operation op s = Some s' \<and> pipeline_ok n s'"
proof (cases op)
  case Init
  with init_arrays_ok [of s] assms(1) show ?thesis by (simp add: pipeline_ok_def)
next
  case (Generate rnd accept target)
  with generate_ok [of s rnd accept target] assms(1,2) show ?thesis
    by (simp add: pipeline_ok_def)
next
  case (Analyze fuel)
  with assms have r: "in_range (gr s)" and f: "n_nodes (gr s) \<le> fuel"
    by (simp_all add: pipeline_ok_def store_ok_def)
  from find_biconnected_components_total [OF r f]
  obtain t where t: "find_biconnected_components fuel s = Some (s\<lparr>tj := t\<rparr>)" by blast
  from find_biconnected_components_nodes_below [OF r t] assms(1) t Analyze
  show ?thesis by (simp add: pipeline_ok_def)
next
  case Plan
  with planner_ok [of s] assms(1) show ?thesis by (simp add: pipeline_ok_def)
qed

lemma run_operations_ok:
  "pipeline_ok n s \<Longrightarrow> 0 < n \<Longrightarrow> list_all (enough_fuel n) ops \<Longrightarrow>
   \<exists>s'. run_operations ops s = Some s' \<and> pipeline_ok n s'"
proof (induction ops arbitrary: s)
  case Nil
  then show ?case by simp
next
  case (Cons op ops)
  from run_operation_ok [of n s op] Cons.prems
  obtain s1 where a: "run_operation op s = Some s1" "pipeline_ok n s1" by auto
  from Cons.IH [OF a(2)] Cons.prems a(1) show ?case by simp
qed

text \<open>
  Claim C7. Start from \<^verbatim>\<open>init_arrays\<close> with a positive node count within the supported
  range, and run any sequence of generator, analyzer and planner calls (each analyzer call
  with a recursion budget of at least the node count). The sequence runs to completion,
  and in the resulting graph store every degree is at most \<^verbatim>\<open>MAX_NEIGHBORS\<close>, \<open>u\<close> is in the
  neighbour row of \<open>v\<close> iff \<open>v\<close> is in the row of \<open>u\<close>, and \<^verbatim>\<open>degree[u]\<close> is the length of the
  row of \<open>u\<close>.
\<close>

theorem graph_store_invariants:
  assumes "0 < n_nodes (gr s)" "n_nodes (gr s) \<le> MAX_NODES"
    "list_all (enough_fuel (n_nodes (gr s))) ops"
  shows "\<exists>s'. run_operations (Init # ops) s = Some s' \<and>
           degree_bounded (gr s') \<and> adjacency_symmetric (gr s') \<and> degree_consistent (gr s')"
proof -
  from run_operations_ok [OF init_arrays_ok assms(1,3)]
  obtain s' where "run_operations ops (init_arrays s) = Some s'"
    "pipeline_ok (n_nodes (gr s)) s'" by blast
  then show ?thesis
    by (auto simp add: pipeline_ok_def store_ok_def degree_consistent_always)
qed

theorem graph_store_invariants_witness:
  "0 < n_nodes (gr path5) \<and> n_nodes (gr path5) \<le> MAX_NODES \<and>
   list_all (enough_fuel (n_nodes (gr path5)))
     [Generate (\<lambda>k. k) (\<lambda>d r. False) 0, Analyze 6, Plan, Analyze 6] \<and>
   (\<exists>s'. run_operations
            [Init, Generate (\<lambda>k. k) (\<lambda>d r. False) 0, Analyze 6, Plan, Analyze 6] path5 = Some s' \<and>
          degree_bounded (gr s') \<and> adjacency_symmetric (gr s') \<and> degree_consistent (gr s'))"
proof -
  have h: "0 < n_nodes (gr path5)" "n_nodes (gr path5) \<le> MAX_NODES"
    "list_all (enough_fuel (n_nodes (gr path5)))
       [Generate (\<lambda>k. k) (\<lambda>d r. False) 0, Analyze 6, Plan, Analyze 6]"
    by (simp_all add: path5_def rows_eval MAX_NODES_def)
  from graph_store_invariants [OF h] h show ?thesis by blast
qed

section \<open>Frame of the planner\<close>

text \<open>
  Every state that the pipeline reaches from \<^verbatim>\<open>init_arrays\<close> has a symmetric edge matrix.
\<close>

lemma reachable_edge_matrix_symmetric:
  assumes "0 < n_nodes (gr s0)" "list_all (enough_fuel (n_nodes (gr s0))) ops"
    and "run_operations (Init # ops) s0 = Some s"
  shows "exists_edge_symmetric (gr s)"
proof -
  from run_operations_ok [OF init_arrays_ok assms(1,2)]
  obtain s' where "run_operations ops (init_arrays s0) = Some s'"
    "pipeline_ok (n_nodes (gr s0)) s'" by blast
  with assms(3) show ?thesis by (simp add: pipeline_ok_def store_ok_def)
qed

text \<open>
  Claim C10 as stated says that the planner leaves the leaf-block classification
  unchanged. The planner starts by calling \<^verbatim>\<open>identify_leaf_blocks\<close>, which overwrites the
  classification: on the analysed path \<open>0-1-2-3-4\<close> the leaf list is empty before the call
  and \<open>[0, 3]\<close> after it.
\<close>

theorem planner_replaces_classification:
  "find_biconnected_components 6 path5 = Some path5_analysed \<and>
   leaf_blocks (lf path5_analysed) = [] \<and>
   leaf_blocks (lf (add_optimal_redundant_edges path5_analysed)) = [0, 3] \<and>
   lf (add_optimal_redundant_edges path5_analysed) \<noteq> lf path5_analysed"
proof -
  from gr_find_biconnected_components [OF path5_analysis(1)]
  have a: "leaf_blocks (lf path5_analysed) = []"
    by (simp add: path5_def state_of_rows_def)
  have b: "leaf_blocks (lf (add_optimal_redundant_edges path5_analysed)) = [0, 3]"
    using path5_planning(1) by (simp add: path5_planned_def)
  from a b have "lf (add_optimal_redundant_edges path5_analysed) \<noteq> lf path5_analysed"
    by auto
  with a b path5_analysis(1) show ?thesis by simp
qed

text \<open>
  Claim C10, amended. The planner only adds edges. No entry of the edge matrix is
  cleared, every neighbour row keeps its entries as a prefix, and no degree decreases; the
  DFS results (cut-vertex flags, block list) are untouched. The leaf classification is
  overwritten by the one \<^verbatim>\<open>identify_leaf_blocks\<close> computes from those flags and blocks, which
  recomputing after the call would not change. \<^verbatim>\<open>redundant_edges_added\<close> is at most half
  the number of leaf blocks, rounded up; and when the edge matrix is symmetric (as it is
  in every state reached from \<^verbatim>\<open>init_arrays\<close>, by \<open>reachable_edge_matrix_symmetric\<close>), it is
  exactly the number of edges that the call added to the graph.
\<close>

theorem planner_frame:
  "(\<forall>u v. exists_edge (gr s) u v \<longrightarrow> exists_edge (gr (add_optimal_redundant_edges s)) u v) \<and>
   (\<forall>u. \<exists>ys. neighbor_list (gr (add_optimal_redundant_edges s)) u
                 = neighbor_list (gr s) u @ ys) \<and>
   (\<forall>u. degree (gr s) u \<le> degree (gr (add_optimal_redundant_edges s)) u) \<and>
   is_cut (tj (add_optimal_redundant_edges s)) = is_cut (tj s) \<and>
   blocks (tj (add_optimal_redundant_edges s)) = blocks (tj s) \<and>
   tj (add_optimal_redundant_edges s) = tj s \<and>
   lf (add_optimal_redundant_edges s) = lf (identify_leaf_blocks s) \<and>
   lf (identify_leaf_blocks (add_optimal_redundant_edges s))
     = lf (add_optimal_redundant_edges s) \<and>
   edge_set (gr s) \<subseteq> edge_set (gr (add_optimal_redundant_edges s)) \<and>
   redundant_edges_added (gr (add_optimal_redundant_edges s))
     \<le> (length (leaf_blocks (lf (add_optimal_redundant_edges s))) + 1) div 2 \<and>
   (exists_edge_symmetric (gr s) \<longrightarrow>
      exists_edge_symmetric (gr (add_optimal_redundant_edges s)) \<and>
      finite (edge_set (gr (add_optimal_redundant_edges s)) - edge_set (gr s)) \<and>
      redundant_edges_added (gr (add_optimal_redundant_edges s))
        = card (edge_set (gr (add_optimal_redundant_edges s)) - edge_set (gr s)))"
proof -
  define s1 where "s1 = identify_leaf_blocks s"
  define s2 where "s2 = s1\<lparr>gr := (gr s1)\<lparr>redundant_edges_added := 0\<rparr>\<rparr>"
  define ps where "ps = spec_pairs (leaf_blocks (lf s1))"
  have r: "add_optimal_redundant_edges s = foldl spec_connect s2 ps"
    by (simp add: planner_is_fold_planner fold_planner_def s1_def s2_def ps_def Let_def)
  have g2: "exists_edge (gr s2) = exists_edge (gr s)" "neighbor_list (gr s2) = neighbor_list (gr s)"
    "degree (gr s2) = degree (gr s)" "redundant_edges_added (gr s2) = 0"
    "edge_set (gr s2) = edge_set (gr s)" "tj s2 = tj s" "lf s2 = lf s1"
    by (simp_all add: s2_def s1_def edge_set_def)
  note frame = foldl_spec_connect_frame [of s2 ps, unfolded g2]
  have len: "length ps = (length (leaf_blocks (lf s1)) + 1) div 2"
    by (simp add: ps_def length_spec_pairs)
  have idem: "lf (identify_leaf_blocks (foldl spec_connect s2 ps)) = lf s1"
    unfolding s1_def by (rule identify_idem) (simp add: g2)
  have sel: "tj (foldl spec_connect s2 ps) = tj s" "lf (foldl spec_connect s2 ps) = lf s1"
    by (simp_all add: g2)
  have bound: "redundant_edges_added (gr (foldl spec_connect s2 ps))
                 \<le> (length (leaf_blocks (lf s1)) + 1) div 2"
    using frame len by simp
  have sub: "edge_set (gr s) \<subseteq> edge_set (gr (foldl spec_connect s2 ps))"
    using frame by (auto simp add: edge_set_def)
  have cnt: "exists_edge_symmetric (gr (foldl spec_connect s2 ps)) \<and>
      finite (edge_set (gr (foldl spec_connect s2 ps)) - edge_set (gr s)) \<and>
      redundant_edges_added (gr (foldl spec_connect s2 ps))
        = card (edge_set (gr (foldl spec_connect s2 ps)) - edge_set (gr s))"
    if "exists_edge_symmetric (gr s)"
  proof -
    from that have "exists_edge_symmetric (gr s2)"
      by (simp add: exists_edge_symmetric_def g2)
    from foldl_spec_connect_count [OF this, of ps, unfolded g2] show ?thesis by simp
  qed
  show ?thesis
    unfolding r sel s1_def [symmetric]
    using frame bound sub cnt idem by blast
qed

theorem planner_frame_witness:
  "exists_edge_symmetric (gr path5_analysed) \<and>
   exists_edge (gr path5_analysed) 0 1 \<and>
   exists_edge (gr (add_optimal_redundant_edges path5_analysed)) 0 1 \<and>
   tj (add_optimal_redundant_edges path5_analysed) = tj path5_analysed \<and>
   lf (add_optimal_redundant_edges path5_analysed) = lf (identify_leaf_blocks path5_analysed) \<and>
   leaf_blocks (lf (add_optimal_redundant_edges path5_analysed)) = [0, 3] \<and>
   redundant_edges_added (gr (add_optimal_redundant_edges path5_analysed))
     = card (edge_set (gr (add_optimal_redundant_edges path5_analysed))
             - edge_set (gr path5_analysed)) \<and>
   redundant_edges_added (gr (add_optimal_redundant_edges path5_analysed)) = 1"
proof -
  have h: "exists_edge_symmetric (gr path5_analysed)"
    unfolding exists_edge_symmetric_def
  proof (intro allI)
    fix u v :: nat
    consider "u = 0" | "u = 1" | "u = 2" | "u = 3" | "u = 4" | "5 \<le> u"
      by linarith
    then show "exists_edge (gr path5_analysed) u v = exists_edge (gr path5_analysed) v u"
      by cases (auto simp add: path5_analysis path5_def rows_eval nth_Cons split: nat.splits)
  qed
  have e: "exists_edge (gr path5_analysed) 0 1"
    by (simp add: path5_analysis path5_def rows_eval)
  show ?thesis
    using h e planner_frame [of path5_analysed] path5_planning by (simp add: path5_planned_def)
qed

text \<open>
  Claim C8. On a graph whose adjacency entries are in range, the analyzer returns (given a
  recursion budget of at least the node count), and its result is a function of the
  adjacency alone: a second run on the state the first run left returns that same state,
  and a run on any other state with the same node count and neighbour rows, whatever its
  DFS arrays, edge stack and blocks hold, and with any other sufficient budget, yields the
  same cut-vertex flags and the same block list.
\<close>

lemma find_biconnected_components_form:
  "find_biconnected_components f x = Some y \<Longrightarrow> y = x\<lparr>tj := tj y\<rparr>"
  by (auto simp add: find_biconnected_components_def split: option.splits)

theorem analysis_deterministic:
  assumes "in_range (gr s)" "n_nodes (gr s) \<le> fuel" "n_nodes (gr s) \<le> fuel'"
    "n_nodes (gr s') = n_nodes (gr s)" "\<forall>u. neighbor_list (gr s') u = neighbor_list (gr s) u"
  shows "\<exists>s1 s2. find_biconnected_components fuel s = Some s1 \<and>
           find_biconnected_components fuel' s1 = Some s1 \<and>
           find_biconnected_components fuel' s' = Some s2 \<and>
           is_cut (tj s2) = is_cut (tj s1) \<and> blocks (tj s2) = blocks (tj s1) \<and>
           tj s2 = tj s1"
proof -
  from find_biconnected_components_total [OF assms(1,2)]
  obtain t where t: "find_biconnected_components fuel s = Some (s\<lparr>tj := t\<rparr>)" by blast
  let ?s1 = "s\<lparr>tj := t\<rparr>"
  let ?m = "max fuel fuel'"
  have m: "find_biconnected_components ?m s = Some ?s1"
    using t by (rule find_biconnected_components_fuel) simp
  from find_biconnected_components_total [OF assms(1,3)]
  obtain t' where t': "find_biconnected_components fuel' s = Some (s\<lparr>tj := t'\<rparr>)" by blast
  have "find_biconnected_components ?m s = Some (s\<lparr>tj := t'\<rparr>)"
    using t' by (rule find_biconnected_components_fuel) simp
  with m have "tj ?s1 = tj (s\<lparr>tj := t'\<rparr>)" by (simp only: option.inject)
  then have tt: "t' = t" by simp
  have any: "map_option tj (find_biconnected_components fuel' x) = Some t"
    if "n_nodes (gr x) = n_nodes (gr s)" "\<forall>u. neighbor_list (gr x) u = neighbor_list (gr s) u"
    for x
    using find_biconnected_components_same_rows [OF that, of fuel'] t' tt by simp
  have rows1: "n_nodes (gr ?s1) = n_nodes (gr s)"
    "\<forall>u. neighbor_list (gr ?s1) u = neighbor_list (gr s) u"
    by simp_all
  from any [OF rows1] obtain y where y: "find_biconnected_components fuel' ?s1 = Some y" "tj y = t"
    by (cases "find_biconnected_components fuel' ?s1") simp_all
  from find_biconnected_components_form [OF y(1)] y(2)
  have "y = ?s1" by simp
  with y(1) have second: "find_biconnected_components fuel' ?s1 = Some ?s1" by simp
  from any [OF assms(4,5)]
  obtain s2 where s2: "find_biconnected_components fuel' s' = Some s2" "tj s2 = t"
    by (cases "find_biconnected_components fuel' s'") simp_all
  have "find_biconnected_components fuel s = Some ?s1 \<and>
        find_biconnected_components fuel' ?s1 = Some ?s1 \<and>
        find_biconnected_components fuel' s' = Some s2 \<and>
        is_cut (tj s2) = is_cut (tj ?s1) \<and> blocks (tj s2) = blocks (tj ?s1) \<and>
        tj s2 = tj ?s1"
    using t second s2 by simp
  then show ?thesis by blast
qed

lemma in_range_path5: "in_range (gr path5)"
  unfolding in_range_def
proof (intro allI impI)
  fix u v assume a: "v \<in> set (neighbor_list (gr path5) u)"
  consider "u = 0" | "u = 1" | "u = 2" | "u = 3" | "u = 4" | "5 \<le> u"
    by linarith
  then show "u < n_nodes (gr path5) \<and> v < n_nodes (gr path5)"
    using a by cases (auto simp add: path5_def rows_eval)
qed

theorem analysis_deterministic_witness:
  "in_range (gr path5) \<and>
   find_biconnected_components 6 path5 = Some path5_analysed \<and>
   find_biconnected_components 9 path5_analysed = Some path5_analysed \<and>
   map_option tj (find_biconnected_components 9 (path5\<lparr>tj := tj star7_analysed\<rparr>))
     = Some (tj path5_analysed)"
proof -
  have h: "n_nodes (gr path5) \<le> 6" "n_nodes (gr path5) \<le> 9"
    "n_nodes (gr (path5\<lparr>tj := tj star7_analysed\<rparr>)) = n_nodes (gr path5)"
    "\<forall>u. neighbor_list (gr (path5\<lparr>tj := tj star7_analysed\<rparr>)) u = neighbor_list (gr path5) u"
    by (simp_all add: path5_def rows_eval)
  from analysis_deterministic [OF in_range_path5 h]
  obtain s1 s2 where r: "find_biconnected_components 6 path5 = Some s1"
    "find_biconnected_components 9 s1 = Some s1"
    "find_biconnected_components 9 (path5\<lparr>tj := tj star7_analysed\<rparr>) = Some s2"
    "tj s2 = tj s1"
    by blast
  from r(1) path5_analysis(1) have "s1 = path5_analysed" by simp
  with r in_range_path5 path5_analysis(1) show ?thesis by simp
qed

section \<open>Capacity bounds\<close>

lemma star_backbone:
  assumes "\<forall>u. degree g u = 0" "original_edges g = 0"
  shows "k \<le> MAX_NEIGHBORS \<Longrightarrow>
         degree (foldl (backbone_step rand_zero) g [1..<Suc k]) 0 = k \<and>
         (\<forall>i > k. degree (foldl (backbone_step rand_zero) g [1..<Suc k]) i = 0) \<and>
         original_edges (foldl (backbone_step rand_zero) g [1..<Suc k]) = k"
proof (induction k)
  case 0
  show ?case using assms by simp
next
  case (Suc k)
  let ?g = "foldl (backbone_step rand_zero) g [1..<Suc k]"
  from Suc have ih: "degree ?g 0 = k" "\<forall>i > k. degree ?g i = 0" "original_edges ?g = k"
    and k: "k < MAX_NEIGHBORS"
    by simp_all
  have step: "backbone_step rand_zero ?g (Suc k)
              = (link_nodes (Suc k) 0 ?g)\<lparr>original_edges := Suc k\<rparr>"
    using ih k by (simp add: backbone_step_def rand_zero_def MAX_NEIGHBORS_def)
  have "foldl (backbone_step rand_zero) g [1..<Suc (Suc k)]
        = (link_nodes (Suc k) 0 ?g)\<lparr>original_edges := Suc k\<rparr>"
    using step by simp
  then show ?case using ih by (simp add: degree_link_nodes)
qed

lemma backbone_capacity:
  assumes "\<forall>u. degree g u = 0" "original_edges g = 0"
  shows "foldl (backbone_step rand_zero) g [1..<82] = foldl (backbone_step rand_zero) g [1..<81]"
    "degree (foldl (backbone_step rand_zero) g [1..<81]) 0 = MAX_NEIGHBORS"
    "degree (foldl (backbone_step rand_zero) g [1..<81]) 81 = 0"
    "original_edges (foldl (backbone_step rand_zero) g [1..<81]) = 80"
proof -
  let ?g = "foldl (backbone_step rand_zero) g [1..<81]"
  from star_backbone [OF assms, of 80]
  have a: "degree ?g 0 = 80" "\<forall>i > 80. degree ?g i = 0" "original_edges ?g = 80"
    by (simp_all add: MAX_NEIGHBORS_def)
  show "degree ?g 0 = MAX_NEIGHBORS" "degree ?g 81 = 0" "original_edges ?g = 80"
    using a by (simp_all add: MAX_NEIGHBORS_def)
  have "backbone_step rand_zero ?g 81 = ?g"
    using a by (simp add: backbone_step_def rand_zero_def MAX_NEIGHBORS_def)
  moreover have "[1..<82] = [1..<81] @ [81::nat]"
    by (simp add: upt_rec)
  ultimately show "foldl (backbone_step rand_zero) g [1..<82] = ?g"
    by simp
qed

lemma isolated_store:
  "n_nodes (gr (init_arrays (isolated n))) = n"
  "degree (gr (init_arrays (isolated n))) u = 0"
  "original_edges (gr (init_arrays (isolated n))) = 0"
  by (simp_all add: init_arrays_def isolated_def state_of_rows_def graph_of_rows_sel)

text \<open>
  Claim C5 as stated says that reaching a capacity bound is surfaced through a counter or
  a flag and that nothing is dropped silently. Run the generator on 82 nodes with
  \<^verbatim>\<open>rand()\<close> returning 0 every time: every node asks for a link to node 0, and when node
  81 is processed the neighbour row of node 0 is full. The iteration is skipped: the
  graph the generator returns is the graph as it was before that iteration, with node 81
  isolated and \<^verbatim>\<open>original_edges\<close> at 80, and no global holds a trace of the dropped link.
\<close>

theorem capacity_drop_is_silent:
  "gr (generate_random_topology rand_zero never_accept 0 (init_arrays (isolated 82)))
     = foldl (backbone_step rand_zero) (gr (init_arrays (isolated 82))) [1..<81] \<and>
   degree (gr (generate_random_topology rand_zero never_accept 0 (init_arrays (isolated 82)))) 0
     = MAX_NEIGHBORS \<and>
   degree (gr (generate_random_topology rand_zero never_accept 0 (init_arrays (isolated 82)))) 81
     = 0 \<and>
   original_edges (gr (generate_random_topology rand_zero never_accept 0
                         (init_arrays (isolated 82)))) = 80"
proof -
  let ?g = "gr (init_arrays (isolated 82))"
  have z: "\<forall>u. degree ?g u = 0" "original_edges ?g = 0"
    by (simp_all add: isolated_store)
  have "gr (generate_random_topology rand_zero never_accept 0 (init_arrays (isolated 82)))
        = foldl (backbone_step rand_zero) ?g [1..<82]"
    by (simp add: generate_random_topology_def tree_backbone_def isolated_store
        cross_edges_stop)
  then show ?thesis
    using backbone_capacity [OF z] by simp
qed

text \<open>
  Claim C5, amended: when a capacity bound is reached, the operation that hits it is
  skipped and returns the program state it was given. A push on a full edge stack leaves
  the DFS state unchanged; at \<^verbatim>\<open>MAX_BLOCKS\<close> blocks neither the block of an articulation
  point nor the root's last block is formed, and the edge stack is not popped; with a full
  neighbour row at either endpoint the generator's two loops and the planner insert no
  link. No counter and no flag is written in any of these cases.
\<close>

theorem capacity_bound_skips:
  "(MAX_NODES * 10 - 1 \<le> length (edge_stack t) \<longrightarrow> push_edge u v t = t) \<and>
   (MAX_BLOCKS \<le> length (blocks t') \<longrightarrow>
      close_block u v t' = t' \<and> root_remaining u children t' = t') \<and>
   (MAX_NEIGHBORS \<le> degree g i \<or> MAX_NEIGHBORS \<le> degree g (rnd (i - 1) mod i) \<longrightarrow>
      backbone_step rnd g i = g) \<and>
   (MAX_NEIGHBORS \<le> degree g' (rnd k mod n_nodes g')
      \<or> MAX_NEIGHBORS \<le> degree g' (rnd (k + 1) mod n_nodes g') \<longrightarrow>
      snd (cross_step rnd accept k g') = g') \<and>
   (find_non_cut_in_block (tj s) block_a = Some node_a \<and>
    find_non_cut_in_block (tj s) block_b = Some node_b \<and>
    (MAX_NEIGHBORS \<le> degree (gr s) node_a \<or> MAX_NEIGHBORS \<le> degree (gr s) node_b) \<longrightarrow>
      plan_pair block_a block_b s = s)"
proof (intro conjI impI)
  assume "MAX_NODES * 10 - 1 \<le> length (edge_stack t)"
  then show "push_edge u v t = t" by (simp add: push_edge_def)
next
  assume "MAX_BLOCKS \<le> length (blocks t')"
  then show "close_block u v t' = t'" "root_remaining u children t' = t'"
    by (simp_all add: close_block_def root_remaining_def)
next
  assume "MAX_NEIGHBORS \<le> degree g i \<or> MAX_NEIGHBORS \<le> degree g (rnd (i - 1) mod i)"
  then show "backbone_step rnd g i = g" by (auto simp add: backbone_step_def Let_def)
next
  assume "MAX_NEIGHBORS \<le> degree g' (rnd k mod n_nodes g')
      \<or> MAX_NEIGHBORS \<le> degree g' (rnd (k + 1) mod n_nodes g')"
  then show "snd (cross_step rnd accept k g') = g'"
    by (auto simp add: cross_step_def Let_def)
next
  assume "find_non_cut_in_block (tj s) block_a = Some node_a \<and>
    find_non_cut_in_block (tj s) block_b = Some node_b \<and>
    (MAX_NEIGHBORS \<le> degree (gr s) node_a \<or> MAX_NEIGHBORS \<le> degree (gr s) node_b)"
  then show "plan_pair block_a block_b s = s"
    by (auto simp add: plan_pair_def)
qed

theorem capacity_bound_skips_witness:
  "MAX_NODES * 10 - 1 \<le> length (edge_stack (reset_tarjan\<lparr>edge_stack := replicate 9999 (0, 1)\<rparr>)) \<and>
   push_edge 0 1 (reset_tarjan\<lparr>edge_stack := replicate 9999 (0, 1)\<rparr>)
     = reset_tarjan\<lparr>edge_stack := replicate 9999 (0, 1)\<rparr> \<and>
   MAX_BLOCKS \<le> length (blocks (reset_tarjan\<lparr>blocks := replicate 1250 []\<rparr>)) \<and>
   close_block 0 1 (reset_tarjan\<lparr>blocks := replicate 1250 []\<rparr>)
     = reset_tarjan\<lparr>blocks := replicate 1250 []\<rparr> \<and>
   MAX_NEIGHBORS
     \<le> degree (foldl (backbone_step rand_zero) (gr (init_arrays (isolated 82))) [1..<81])
          (rand_zero (81 - 1) mod 81) \<and>
   backbone_step rand_zero
       (foldl (backbone_step rand_zero) (gr (init_arrays (isolated 82))) [1..<81]) 81
     = foldl (backbone_step rand_zero) (gr (init_arrays (isolated 82))) [1..<81] \<and>
   MAX_NEIGHBORS \<le> degree ((gr path5)\<lparr>degree := \<lambda>_. 80\<rparr>) (rand_zero 0 mod 5) \<and>
   snd (cross_step rand_zero never_accept 0 ((gr path5)\<lparr>degree := \<lambda>_. 80\<rparr>))
     = (gr path5)\<lparr>degree := \<lambda>_. 80\<rparr> \<and>
   find_non_cut_in_block (tj path5_analysed) 0 = Some 4 \<and>
   find_non_cut_in_block (tj path5_analysed) 3 = Some 0 \<and>
   MAX_NEIGHBORS \<le> degree (gr (path5_analysed\<lparr>gr := (gr path5)\<lparr>degree := \<lambda>_. 80\<rparr>\<rparr>)) 4 \<and>
   plan_pair 0 3 (path5_analysed\<lparr>gr := (gr path5)\<lparr>degree := \<lambda>_. 80\<rparr>\<rparr>)
     = path5_analysed\<lparr>gr := (gr path5)\<lparr>degree := \<lambda>_. 80\<rparr>\<rparr>"
proof -
  let ?ta = "reset_tarjan\<lparr>edge_stack := replicate 9999 (0, 1)\<rparr>"
  let ?tb = "reset_tarjan\<lparr>blocks := replicate 1250 []\<rparr>"
  let ?g = "foldl (backbone_step rand_zero) (gr (init_arrays (isolated 82))) [1..<81]"
  let ?g' = "(gr path5)\<lparr>degree := \<lambda>_. 80\<rparr>"
  let ?s = "path5_analysed\<lparr>gr := ?g'\<rparr>"
  have z: "\<forall>u. degree (gr (init_arrays (isolated 82))) u = 0"
    "original_edges (gr (init_arrays (isolated 82))) = 0"
    by (simp_all add: isolated_store)
  have a: "MAX_NODES * 10 - 1 \<le> length (edge_stack ?ta)"
    by (simp add: MAX_NODES_def)
  have b: "MAX_BLOCKS \<le> length (blocks ?tb)"
    by (simp add: MAX_BLOCKS_def)
  have c: "MAX_NEIGHBORS \<le> degree ?g (rand_zero (81 - 1) mod 81)"
    using backbone_capacity(2) [OF z] by (simp add: rand_zero_def)
  have d: "MAX_NEIGHBORS \<le> degree ?g' (rand_zero 0 mod n_nodes ?g')"
    by (simp add: MAX_NEIGHBORS_def)
  have e: "find_non_cut_in_block (tj ?s) 0 = Some 4" "find_non_cut_in_block (tj ?s) 3 = Some 0"
    "MAX_NEIGHBORS \<le> degree (gr ?s) 4"
    by (simp_all add: path5_planning MAX_NEIGHBORS_def)
  have n: "n_nodes ?g' = 5"
    by (simp add: path5_def rows_eval)
  from capacity_bound_skips
    [where t = ?ta and u = 0 and v = 1 and t' = ?tb and children = 0 and g = ?g and i = 81
       and rnd = rand_zero and g' = ?g' and k = 0 and accept = never_accept and s = ?s
       and block_a = 0 and node_a = 4 and block_b = 3 and node_b = 0]
    a b c d e n
  show ?thesis by simp
qed

section \<open>Cut vertices: invariants of the DFS\<close>

text \<open>
  The proof that the flags \<^verbatim>\<open>is_cut\<close> are the articulation points follows the search.
  \<open>wf_state\<close> holds of every state of the search: discovery times and low-links are
  bounded, tree edges are graph edges to an older node, every flag that is set marks an
  articulation point, and every low-link below the discovery time has a witness, a path
  through younger nodes that ends with an edge to a node with that discovery time.
  \<open>finished\<close> says that the neighbours of a node are all visited, and \<open>complete\<close> that the
  flag of a node is set whenever the test of the source asks for it. \<open>call_pre\<close> and
  \<open>call_post\<close> are the contract of one call of \<^verbatim>\<open>tarjan_dfs_bicomp\<close>, \<open>loop_pre\<close> the invariant
  of its loop after the neighbours \<open>pre\<close>, with the state \<open>t0\<close> in which the call started.
\<close>

definition finished :: "graph \<Rightarrow> tarjan \<Rightarrow> nat \<Rightarrow> bool" where
  "finished g t y = (\<forall>z \<in> set (neighbor_list g y). visited t z)"

definition low_witness :: "graph \<Rightarrow> tarjan \<Rightarrow> nat \<Rightarrow> bool" where
  "low_witness g t x =
     (low t x = disc t x \<or>
      (\<exists>a b. (x, a) \<in> (inside g {y. visited t y \<and> disc t x \<le> disc t y})\<^sup>* \<and>
             b \<in> set (neighbor_list g a) \<and> visited t b \<and> disc t b = low t x))"

definition wf_state :: "graph \<Rightarrow> tarjan \<Rightarrow> bool" where
  "wf_state g t =
     ((\<forall>x. visited t x \<longrightarrow> x < n_nodes g \<and> disc t x \<le> time_dfs t \<and> low t x \<le> disc t x) \<and>
      (\<forall>x p. visited t x \<and> parent_tarjan t x = Some p \<longrightarrow>
             visited t p \<and> x \<in> set (neighbor_list g p) \<and> disc t p < disc t x) \<and>
      (\<forall>x. \<not> visited t x \<longrightarrow> \<not> is_cut t x) \<and>
      (\<forall>w. is_cut t w \<longrightarrow> articulation_point g w) \<and>
      (\<forall>x. visited t x \<longrightarrow> low_witness g t x))"

definition grown :: "tarjan \<Rightarrow> tarjan \<Rightarrow> bool" where
  "grown t r =
     (\<forall>x. visited t x \<longrightarrow>
        visited r x \<and> disc r x = disc t x \<and> low r x = low t x \<and> is_cut r x = is_cut t x \<and>
        parent_tarjan r x = parent_tarjan t x)"

definition complete :: "tarjan \<Rightarrow> nat \<Rightarrow> bool" where
  "complete t w =
     ((parent_tarjan t w \<noteq> None \<longrightarrow>
         (\<forall>c. visited t c \<and> parent_tarjan t c = Some w \<and> disc t w \<le> low t c \<longrightarrow> is_cut t w)) \<and>
      (parent_tarjan t w = None \<longrightarrow>
         (\<forall>c d. c \<noteq> d \<and> visited t c \<and> parent_tarjan t c = Some w \<and>
                visited t d \<and> parent_tarjan t d = Some w \<longrightarrow> is_cut t w)))"

definition older_done :: "graph \<Rightarrow> tarjan \<Rightarrow> nat \<Rightarrow> bool" where
  "older_done g t u =
     (case parent_tarjan t u of
        None \<Rightarrow> (\<forall>y. visited t y \<longrightarrow> finished g t y)
      | Some p \<Rightarrow> visited t p \<and> u \<in> set (neighbor_list g p))"

definition call_pre :: "graph \<Rightarrow> tarjan \<Rightarrow> nat \<Rightarrow> bool" where
  "call_pre g t u =
     (u < n_nodes g \<and> \<not> visited t u \<and> wf_state g t \<and> older_done g t u)"

definition subtree_done :: "graph \<Rightarrow> tarjan \<Rightarrow> tarjan \<Rightarrow> nat \<Rightarrow> bool" where
  "subtree_done g t0 t x =
     (time_dfs t0 < disc t x \<and> finished g t x \<and>
      (\<exists>p. parent_tarjan t x = Some p \<and> \<not> visited t0 p) \<and> complete t x)"

definition call_post :: "graph \<Rightarrow> tarjan \<Rightarrow> nat \<Rightarrow> tarjan \<Rightarrow> bool" where
  "call_post g t u r =
     (wf_state g r \<and> grown t r \<and> visited r u \<and> parent_tarjan r u = parent_tarjan t u \<and>
      time_dfs t < disc r u \<and> finished g r u \<and> complete r u \<and>
      (\<forall>x. visited r x \<and> \<not> visited t x \<and> x \<noteq> u \<longrightarrow> subtree_done g t r x) \<and>
      (\<forall>a b. visited r a \<and> \<not> visited t a \<and> b \<in> set (neighbor_list g a) \<and> visited t b \<longrightarrow>
             (a = u \<and> parent_tarjan t u = Some b) \<or> low r u \<le> disc t b))"

definition loop_base ::
  "graph \<Rightarrow> tarjan \<Rightarrow> nat \<Rightarrow> nat list \<Rightarrow> nat list \<Rightarrow> tarjan \<Rightarrow> bool" where
  "loop_base g t0 u pre vs t =
     (neighbor_list g u = pre @ vs \<and> u < n_nodes g \<and> \<not> visited t0 u \<and> visited t u \<and>
      wf_state g t \<and> grown t0 t \<and> parent_tarjan t u = parent_tarjan t0 u \<and>
      time_dfs t0 < disc t u \<and> older_done g t0 u \<and>
      (\<forall>x. visited t0 x \<longrightarrow> disc t0 x \<le> time_dfs t0) \<and>
      (\<forall>b \<in> set pre. visited t b))"

definition loop_done :: "graph \<Rightarrow> tarjan \<Rightarrow> nat \<Rightarrow> tarjan \<Rightarrow> bool" where
  "loop_done g t0 u t =
     (\<forall>x. visited t x \<and> \<not> visited t0 x \<and> x \<noteq> u \<longrightarrow> subtree_done g t0 t x)"

definition loop_low :: "graph \<Rightarrow> tarjan \<Rightarrow> nat \<Rightarrow> nat list \<Rightarrow> tarjan \<Rightarrow> bool" where
  "loop_low g t0 u pre t =
     ((\<forall>b \<in> set pre. visited t0 b \<longrightarrow> parent_tarjan t0 u = Some b \<or> low t u \<le> disc t0 b) \<and>
      (\<forall>a b. visited t a \<and> \<not> visited t0 a \<and> a \<noteq> u \<and> b \<in> set (neighbor_list g a) \<and> visited t0 b
             \<longrightarrow> low t u \<le> disc t0 b))"

definition loop_count :: "tarjan \<Rightarrow> nat \<Rightarrow> nat \<Rightarrow> tarjan \<Rightarrow> bool" where
  "loop_count t0 u c t =
     ((parent_tarjan t u \<noteq> None \<longrightarrow>
         (\<forall>x. visited t x \<and> parent_tarjan t x = Some u \<and> disc t u \<le> low t x \<longrightarrow> is_cut t u)) \<and>
      ((\<exists>x. visited t x \<and> parent_tarjan t x = Some u) \<longrightarrow> 1 \<le> c) \<and>
      ((\<exists>x y. x \<noteq> y \<and> visited t x \<and> parent_tarjan t x = Some u \<and>
              visited t y \<and> parent_tarjan t y = Some u) \<longrightarrow> 2 \<le> c) \<and>
      (parent_tarjan t u = None \<and> 2 \<le> c \<longrightarrow> is_cut t u) \<and>
      (1 \<le> c \<longrightarrow> (\<exists>y. visited t y \<and> \<not> visited t0 y \<and> y \<noteq> u)))"

definition loop_pre ::
  "graph \<Rightarrow> tarjan \<Rightarrow> nat \<Rightarrow> nat list \<Rightarrow> nat list \<Rightarrow> nat \<Rightarrow> tarjan \<Rightarrow> bool" where
  "loop_pre g t0 u pre vs c t =
     (loop_base g t0 u pre vs t \<and> loop_done g t0 u t \<and> loop_low g t0 u pre t \<and>
      loop_count t0 u c t)"

section \<open>The DFS steps on the fields the cut-vertex computation uses\<close>

definition core_eq :: "tarjan \<Rightarrow> tarjan \<Rightarrow> bool" where
  "core_eq t t' =
     (visited t = visited t' \<and> disc t = disc t' \<and> low t = low t' \<and>
      parent_tarjan t = parent_tarjan t' \<and> is_cut t = is_cut t' \<and> time_dfs t = time_dfs t')"

lemma core_eq_steps:
  "core_eq (push_edge u v t) t"
  "core_eq (close_block u v t) t"
  "core_eq (root_remaining u c t) t"
  by (simp_all add: core_eq_def push_edge_def close_block_def root_remaining_def Let_def)

lemma core_eq_sub:
  assumes "core_eq t t'"
  shows "finished g t y = finished g t' y" "low_witness g t y = low_witness g t' y"
    "complete t y = complete t' y" "older_done g t y = older_done g t' y"
    "wf_state g t = wf_state g t'"
  using assms
  by (simp_all add: core_eq_def finished_def low_witness_def complete_def older_done_def
      wf_state_def cong: option.case_cong)

lemma core_eq_grown:
  assumes "core_eq t t'"
  shows "grown t r = grown t' r" "grown r t = grown r t'"
  using assms by (simp_all add: core_eq_def grown_def)

lemma core_eq_subtree_done:
  assumes "core_eq t t'"
  shows "subtree_done g t r x = subtree_done g t' r x"
    "subtree_done g r t x = subtree_done g r t' x"
  using assms
  by (simp_all add: subtree_done_def core_eq_sub [OF assms]) (simp_all add: core_eq_def)

lemma core_eq_call_pre:
  assumes "core_eq t t'"
  shows "call_pre g t u = call_pre g t' u"
  using assms by (simp add: call_pre_def core_eq_sub [OF assms]) (simp add: core_eq_def)

lemma core_eq_call_post:
  assumes "core_eq t t'"
  shows "call_post g t u r = call_post g t' u r" "call_post g r u t = call_post g r u t'"
  using assms
  by (simp_all add: call_post_def core_eq_sub [OF assms] core_eq_grown [OF assms]
      core_eq_subtree_done [OF assms])
     (simp_all add: core_eq_def)

lemma core_eq_loop_pre:
  assumes "core_eq t t'"
  shows "loop_pre g t0 u pre vs c t = loop_pre g t0 u pre vs c t'"
proof -
  have "loop_base g t0 u pre vs t = loop_base g t0 u pre vs t'"
    using assms
    by (simp add: loop_base_def core_eq_sub [OF assms] core_eq_grown [OF assms])
       (simp add: core_eq_def)
  moreover have "loop_done g t0 u t = loop_done g t0 u t'"
    using assms
    by (simp add: loop_done_def core_eq_subtree_done [OF assms]) (simp add: core_eq_def)
  moreover have "loop_low g t0 u pre t = loop_low g t0 u pre t'"
    using assms by (simp add: loop_low_def core_eq_def)
  moreover have "loop_count t0 u c t = loop_count t0 u c t'"
    using assms by (simp add: loop_count_def core_eq_def)
  ultimately show ?thesis by (simp add: loop_pre_def)
qed

section \<open>Entering a node\<close>

declare visited_steps [simp del]

lemma inside_mono: "S \<subseteq> S' \<Longrightarrow> (inside g S)\<^sup>* \<subseteq> (inside g S')\<^sup>*"
  by (rule rtrancl_mono) (auto simp add: inside_def)

lemma low_witness_grown:
  assumes "grown t r" "visited t x" "low_witness g t x"
    and all: "\<forall>y. visited t y \<longrightarrow> disc t y \<le> time_dfs t"
  shows "low_witness g r x"
proof (cases "low t x = disc t x")
  case True
  with assms(1,2) show ?thesis by (simp add: low_witness_def grown_def)
next
  case False
  with assms(3) obtain a b where
    w: "(x, a) \<in> (inside g {y. visited t y \<and> disc t x \<le> disc t y})\<^sup>*"
      "b \<in> set (neighbor_list g a)" "visited t b" "disc t b = low t x"
    by (auto simp add: low_witness_def)
  have "{y. visited t y \<and> disc t x \<le> disc t y} \<subseteq> {y. visited r y \<and> disc r x \<le> disc r y}"
    using assms(1,2) by (auto simp add: grown_def)
  from inside_mono [OF this] w(1)
  have "(x, a) \<in> (inside g {y. visited r y \<and> disc r x \<le> disc r y})\<^sup>*" by blast
  moreover have "visited r b" "disc r b = low r x"
    using assms(1,2) w(3,4) by (simp_all add: grown_def)
  ultimately show ?thesis using w(2) by (auto simp add: low_witness_def)
qed

lemma no_child_of_unvisited:
  "wf_state g t \<Longrightarrow> \<not> visited t u \<Longrightarrow> visited t x \<Longrightarrow> parent_tarjan t x \<noteq> Some u"
  by (auto simp add: wf_state_def)

lemma enter_node_fields:
  "visited (enter_node u t) = (visited t)(u := True)"
  "disc (enter_node u t) = (disc t)(u := time_dfs t + 1)"
  "low (enter_node u t) = (low t)(u := time_dfs t + 1)"
  "parent_tarjan (enter_node u t) = parent_tarjan t"
  "is_cut (enter_node u t) = is_cut t"
  "time_dfs (enter_node u t) = time_dfs t + 1"
  by (simp_all add: enter_node_def)

lemma grown_enter: "\<not> visited t u \<Longrightarrow> grown t (enter_node u t)"
  by (auto simp add: grown_def enter_node_fields)

lemma wf_state_enter:
  assumes "call_pre g t u"
  shows "wf_state g (enter_node u t)"
proof -
  let ?r = "enter_node u t"
  from assms have u: "u < n_nodes g" "\<not> visited t u" and wf: "wf_state g t"
    and od: "older_done g t u"
    by (simp_all add: call_pre_def)
  note gr = grown_enter [OF u(2)]
  have bound: "\<forall>y. visited t y \<longrightarrow> disc t y \<le> time_dfs t"
    using wf by (simp add: wf_state_def)
  have 1: "\<forall>x. visited ?r x \<longrightarrow> x < n_nodes g \<and> disc ?r x \<le> time_dfs ?r \<and> low ?r x \<le> disc ?r x"
    using wf u by (auto simp add: wf_state_def enter_node_fields)
  have 2: "\<forall>x p. visited ?r x \<and> parent_tarjan ?r x = Some p \<longrightarrow>
             visited ?r p \<and> x \<in> set (neighbor_list g p) \<and> disc ?r p < disc ?r x"
  proof (intro allI impI)
    fix x p assume a: "visited ?r x \<and> parent_tarjan ?r x = Some p"
    show "visited ?r p \<and> x \<in> set (neighbor_list g p) \<and> disc ?r p < disc ?r x"
    proof (cases "x = u")
      case True
      with a od have p: "visited t p" "u \<in> set (neighbor_list g p)"
        by (simp_all add: older_done_def enter_node_fields)
      with u bound have "p \<noteq> u" "disc t p \<le> time_dfs t" by auto
      with p True show ?thesis by (simp add: enter_node_fields)
    next
      case False
      with a have x: "visited t x" "parent_tarjan t x = Some p"
        by (simp_all add: enter_node_fields)
      with wf have p: "visited t p" "x \<in> set (neighbor_list g p)" "disc t p < disc t x"
        by (auto simp add: wf_state_def)
      with u have "p \<noteq> u" by auto
      with p False show ?thesis by (simp add: enter_node_fields)
    qed
  qed
  have 3: "\<forall>x. \<not> visited ?r x \<longrightarrow> \<not> is_cut ?r x"
    using wf by (simp add: wf_state_def enter_node_fields)
  have 4: "\<forall>w. is_cut ?r w \<longrightarrow> articulation_point g w"
    using wf by (simp add: wf_state_def enter_node_fields)
  have 5: "\<forall>x. visited ?r x \<longrightarrow> low_witness g ?r x"
  proof (intro allI impI)
    fix x assume a: "visited ?r x"
    show "low_witness g ?r x"
    proof (cases "x = u")
      case True
      then show ?thesis by (simp add: low_witness_def enter_node_fields)
    next
      case False
      with a have x: "visited t x" by (simp add: enter_node_fields)
      with wf have "low_witness g t x" by (simp add: wf_state_def)
      from low_witness_grown [OF gr x this bound] show ?thesis .
    qed
  qed
  show ?thesis
    unfolding wf_state_def using 1 2 3 4 5 by blast
qed


lemma loop_pre_enter:
  assumes "call_pre g t u"
  shows "loop_pre g t u [] (neighbor_list g u) 0 (enter_node u t)"
proof -
  let ?r = "enter_node u t"
  from assms have u: "u < n_nodes g" "\<not> visited t u" and wf: "wf_state g t"
    and od: "older_done g t u"
    by (simp_all add: call_pre_def)
  have nc: "parent_tarjan ?r x \<noteq> Some u" if "visited ?r x" for x
  proof (cases "x = u")
    case True
    with od u show ?thesis by (auto simp add: older_done_def enter_node_fields)
  next
    case False
    with that no_child_of_unvisited [OF wf u(2), of x] show ?thesis
      by (simp add: enter_node_fields)
  qed
  have new: "x = u" if "visited ?r x" "\<not> visited t x" for x
    using that by (simp add: enter_node_fields split: if_splits)
  have bound: "\<forall>y. visited t y \<longrightarrow> disc t y \<le> time_dfs t"
    using wf by (simp add: wf_state_def)
  have "loop_base g t u [] (neighbor_list g u) ?r"
    unfolding loop_base_def
    using u wf_state_enter [OF assms] grown_enter [OF u(2)] od bound
    by (simp add: enter_node_fields)
  moreover have "loop_done g t u ?r"
    unfolding loop_done_def
  proof (intro allI impI)
    fix x assume "visited ?r x \<and> \<not> visited t x \<and> x \<noteq> u"
    with new [of x] show "subtree_done g t ?r x" by blast
  qed
  moreover have "loop_low g t u [] ?r"
    unfolding loop_low_def
  proof (intro conjI allI impI ballI)
    fix b :: nat assume "b \<in> set []"
    then show "parent_tarjan t u = Some b \<or> low ?r u \<le> disc t b" by simp
  next
    fix a b
    assume "visited ?r a \<and> \<not> visited t a \<and> a \<noteq> u \<and> b \<in> set (neighbor_list g a) \<and> visited t b"
    with new [of a] show "low ?r u \<le> disc t b" by blast
  qed
  moreover have "loop_count t u 0 ?r"
  proof -
    have "\<not> (\<exists>x. visited ?r x \<and> parent_tarjan ?r x = Some u)"
      using nc by blast
    then show ?thesis unfolding loop_count_def by auto
  qed
  ultimately show ?thesis by (simp add: loop_pre_def)
qed

section \<open>Descending to a child\<close>

lemma call_pre_child:
  assumes "loop_pre g t0 u pre (v # vs) c t" "\<not> visited t v" "in_range g"
  shows "call_pre g (push_edge u v (t\<lparr>parent_tarjan := (parent_tarjan t)(v := Some u)\<rparr>)) v"
proof -
  let ?t1 = "t\<lparr>parent_tarjan := (parent_tarjan t)(v := Some u)\<rparr>"
  from assms(1) have rows: "neighbor_list g u = pre @ v # vs" and vu: "visited t u"
    and wf: "wf_state g t"
    by (simp_all add: loop_pre_def loop_base_def)
  have v: "v \<in> set (neighbor_list g u)" using rows by simp
  with assms(3) have vn: "v < n_nodes g" by (auto simp add: in_range_def)
  have lw: "\<And>x. low_witness g ?t1 x = low_witness g t x"
    by (simp add: low_witness_def)
  have "wf_state g ?t1"
    using wf assms(2) unfolding wf_state_def lw by auto
  moreover have "older_done g ?t1 v"
    using vu v by (simp add: older_done_def)
  ultimately have "call_pre g ?t1 v"
    using vn assms(2) by (simp add: call_pre_def)
  then show ?thesis
    by (simp add: core_eq_call_pre [OF core_eq_steps(1)])
qed

section \<open>Reading the invariants\<close>

lemma wf_stateD:
  assumes "wf_state g t"
  shows "visited t x \<Longrightarrow> x < n_nodes g"
    "visited t x \<Longrightarrow> disc t x \<le> time_dfs t"
    "visited t x \<Longrightarrow> low t x \<le> disc t x"
    "visited t x \<Longrightarrow> parent_tarjan t x = Some p \<Longrightarrow> visited t p"
    "visited t x \<Longrightarrow> parent_tarjan t x = Some p \<Longrightarrow> x \<in> set (neighbor_list g p)"
    "visited t x \<Longrightarrow> parent_tarjan t x = Some p \<Longrightarrow> disc t p < disc t x"
    "is_cut t x \<Longrightarrow> visited t x"
    "is_cut t x \<Longrightarrow> articulation_point g x"
    "visited t x \<Longrightarrow> low_witness g t x"
  using assms unfolding wf_state_def by blast+

lemma wf_stateI:
  assumes "\<And>x. visited t x \<Longrightarrow> x < n_nodes g \<and> disc t x \<le> time_dfs t \<and> low t x \<le> disc t x"
    "\<And>x p. visited t x \<Longrightarrow> parent_tarjan t x = Some p \<Longrightarrow>
       visited t p \<and> x \<in> set (neighbor_list g p) \<and> disc t p < disc t x"
    "\<And>x. is_cut t x \<Longrightarrow> visited t x \<and> articulation_point g x"
    "\<And>x. visited t x \<Longrightarrow> low_witness g t x"
  shows "wf_state g t"
  unfolding wf_state_def using assms by blast

lemma grownD:
  assumes "grown t r" "visited t x"
  shows "visited r x" "disc r x = disc t x" "low r x = low t x" "is_cut r x = is_cut t x"
    "parent_tarjan r x = parent_tarjan t x"
  using assms unfolding grown_def by blast+

lemma loop_preD:
  assumes "loop_pre g t0 u pre vs c t"
  shows "neighbor_list g u = pre @ vs" "u < n_nodes g" "\<not> visited t0 u" "visited t u"
    "wf_state g t" "grown t0 t" "parent_tarjan t u = parent_tarjan t0 u"
    "time_dfs t0 < disc t u" "older_done g t0 u"
    "\<And>x. visited t0 x \<Longrightarrow> disc t0 x \<le> time_dfs t0"
    "\<And>b. b \<in> set pre \<Longrightarrow> visited t b"
    "loop_done g t0 u t" "loop_low g t0 u pre t" "loop_count t0 u c t"
  using assms unfolding loop_pre_def loop_base_def by blast+

lemma loop_doneD:
  assumes "loop_done g t0 u t" "visited t x" "\<not> visited t0 x" "x \<noteq> u"
  shows "time_dfs t0 < disc t x" "finished g t x"
    "\<exists>p. parent_tarjan t x = Some p \<and> \<not> visited t0 p" "complete t x"
  using assms unfolding loop_done_def subtree_done_def by blast+

lemma call_postD:
  assumes "call_post g t u r"
  shows "wf_state g r" "grown t r" "visited r u" "parent_tarjan r u = parent_tarjan t u"
    "time_dfs t < disc r u" "finished g r u" "complete r u"
    "\<And>x. visited r x \<Longrightarrow> \<not> visited t x \<Longrightarrow> x \<noteq> u \<Longrightarrow> subtree_done g t r x"
    "\<And>a b. visited r a \<Longrightarrow> \<not> visited t a \<Longrightarrow> b \<in> set (neighbor_list g a) \<Longrightarrow> visited t b \<Longrightarrow>
       (a = u \<and> parent_tarjan t u = Some b) \<or> low r u \<le> disc t b"
  using assms unfolding call_post_def by blast+

lemma older_doneD:
  "older_done g t u \<Longrightarrow> parent_tarjan t u = Some p \<Longrightarrow> visited t p"
  "older_done g t u \<Longrightarrow> parent_tarjan t u = None \<Longrightarrow> visited t y \<Longrightarrow> finished g t y"
  by (simp_all add: older_done_def)

lemma finished_mono:
  "finished g t x \<Longrightarrow> (\<And>y. visited t y \<Longrightarrow> visited r y) \<Longrightarrow> finished g r x"
  by (simp add: finished_def)

section \<open>Adjusting the low-link and the cut flag of the current node\<close>

definition adjusted :: "graph \<Rightarrow> nat \<Rightarrow> tarjan \<Rightarrow> tarjan \<Rightarrow> bool" where
  "adjusted g u t t' =
     (visited t' = visited t \<and> disc t' = disc t \<and> parent_tarjan t' = parent_tarjan t \<and>
      time_dfs t' = time_dfs t \<and>
      (\<forall>x. x \<noteq> u \<longrightarrow> low t' x = low t x \<and> is_cut t' x = is_cut t x) \<and>
      low t' u \<le> low t u \<and> low_witness g t' u \<and>
      (is_cut t u \<longrightarrow> is_cut t' u) \<and> (is_cut t' u \<longrightarrow> is_cut t u \<or> articulation_point g u))"

lemma adjustedD:
  assumes "adjusted g u t t'"
  shows "visited t' = visited t" "disc t' = disc t" "parent_tarjan t' = parent_tarjan t"
    "time_dfs t' = time_dfs t"
    "x \<noteq> u \<Longrightarrow> low t' x = low t x" "x \<noteq> u \<Longrightarrow> is_cut t' x = is_cut t x"
    "low t' u \<le> low t u" "low_witness g t' u"
    "is_cut t u \<Longrightarrow> is_cut t' u" "is_cut t' u \<Longrightarrow> is_cut t u \<or> articulation_point g u"
  using assms unfolding adjusted_def by blast+

lemma low_witness_cong:
  "visited t' = visited t \<Longrightarrow> disc t' = disc t \<Longrightarrow> low t' x = low t x \<Longrightarrow>
   low_witness g t' x = low_witness g t x"
  by (simp add: low_witness_def)

lemma wf_state_adjusted:
  assumes wf: "wf_state g t" and ad: "adjusted g u t t'" and u: "visited t u"
  shows "wf_state g t'"
proof (rule wf_stateI)
  note a = adjustedD [OF ad]
  fix x assume x: "visited t' x"
  then have xt: "visited t x" by (simp add: a)
  show "x < n_nodes g \<and> disc t' x \<le> time_dfs t' \<and> low t' x \<le> disc t' x"
  proof (cases "x = u")
    case True
    with wf_stateD(1-3) [OF wf xt] a(7) show ?thesis by (simp add: a(1-4))
  next
    case False
    with wf_stateD(1-3) [OF wf xt] a(5) [OF False] show ?thesis by (simp add: a(1-4))
  qed
  show "low_witness g t' x"
  proof (cases "x = u")
    case True
    with a(8) show ?thesis by simp
  next
    case False
    from wf_stateD(9) [OF wf xt] low_witness_cong [OF a(1,2) a(5) [OF False], of g]
    show ?thesis by simp
  qed
next
  note a = adjustedD [OF ad]
  fix x p assume "visited t' x" "parent_tarjan t' x = Some p"
  then have "visited t x" "parent_tarjan t x = Some p" by (simp_all add: a)
  from wf_stateD(4-6) [OF wf this]
  show "visited t' p \<and> x \<in> set (neighbor_list g p) \<and> disc t' p < disc t' x"
    by (simp add: a(1-4))
next
  note a = adjustedD [OF ad]
  fix x assume c: "is_cut t' x"
  show "visited t' x \<and> articulation_point g x"
  proof (cases "x = u")
    case True
    from c True a(10) have "is_cut t u \<or> articulation_point g u" by simp
    with wf_stateD(8) [OF wf, of u] u True show ?thesis by (auto simp add: a(1-4))
  next
    case False
    with c a(6) [OF False] have "is_cut t x" by simp
    from wf_stateD(7,8) [OF wf this] show ?thesis by (simp add: a(1-4))
  qed
qed

lemma complete_adjusted:
  assumes co: "complete t x" and ad: "adjusted g u t t'" and x: "x \<noteq> u"
    and nc: "parent_tarjan t u \<noteq> Some x"
  shows "complete t' x"
proof -
  note a = adjustedD [OF ad]
  have low: "low t' c = low t c" if "parent_tarjan t c = Some x" for c
    using that nc a(5) [of c] by auto
  show ?thesis
    using co unfolding complete_def a(1-3) a(6) [OF x]
    by (metis low)
qed

lemma subtree_done_adjusted:
  assumes sd: "subtree_done g t0 t x" and ad: "adjusted g u t t'" and x: "x \<noteq> u"
    and nc: "parent_tarjan t u \<noteq> Some x"
  shows "subtree_done g t0 t' x"
proof -
  note a = adjustedD [OF ad]
  from sd have "complete t x" by (simp add: subtree_done_def)
  from complete_adjusted [OF this ad x nc] sd show ?thesis
    by (simp add: subtree_done_def finished_def a(1-4))
qed

lemma grown_adjusted:
  assumes "grown t0 t" "adjusted g u t t'" "\<not> visited t0 u"
  shows "grown t0 t'"
  unfolding grown_def
proof (intro allI impI)
  note a = adjustedD [OF assms(2)]
  fix x assume x: "visited t0 x"
  with assms(3) have "x \<noteq> u" by auto
  with grownD [OF assms(1) x] a(5,6) [of x]
  show "visited t' x \<and> disc t' x = disc t0 x \<and> low t' x = low t0 x \<and>
        is_cut t' x = is_cut t0 x \<and> parent_tarjan t' x = parent_tarjan t0 x"
    by (simp add: a(1-4))
qed

section \<open>The steps of the loop body, read on the fields of the DFS state\<close>

lemma back_edge_fields:
  "visited (back_edge u v t) = visited t"
  "disc (back_edge u v t) = disc t"
  "parent_tarjan (back_edge u v t) = parent_tarjan t"
  "time_dfs (back_edge u v t) = time_dfs t"
  "is_cut (back_edge u v t) = is_cut t"
  "low (back_edge u v t) = (if disc t v < low t u then (low t)(u := disc t v) else low t)"
  by (simp_all add: back_edge_def push_edge_def Let_def)

lemma after_child_fields:
  "visited (after_child u v k t) = visited t"
  "disc (after_child u v k t) = disc t"
  "parent_tarjan (after_child u v k t) = parent_tarjan t"
  "time_dfs (after_child u v k t) = time_dfs t"
  "low (after_child u v k t) = (if low t v < low t u then (low t)(u := low t v) else low t)"
  by (simp_all add: after_child_def close_block_def Let_def)

lemma after_child_is_cut:
  "v \<noteq> u \<Longrightarrow> is_cut (after_child u v k t) x =
     (is_cut t x \<or> (x = u \<and> ((parent_tarjan t u = None \<and> 1 < k) \<or>
        (parent_tarjan t u \<noteq> None \<and> disc t u \<le> low t v))))"
  by (auto simp add: after_child_def close_block_def Let_def)

section \<open>Separating sets\<close>

lemma closed_set_path:
  assumes cl: "\<And>a b. a \<in> W \<Longrightarrow> b \<in> set (neighbor_list g a) \<Longrightarrow> b \<noteq> u \<Longrightarrow> b \<in> W"
  shows "(a, b) \<in> (inside g (- {u}))\<^sup>* \<Longrightarrow> a \<in> W \<Longrightarrow> b \<in> W"
proof (induction rule: rtrancl_induct)
  case base
  then show ?case by simp
next
  case (step y z)
  from step.hyps(2) have "z \<in> set (neighbor_list g y)" "z \<noteq> u" by (simp_all add: inside_def)
  with cl [of y z] step show ?case by blast
qed

lemma separation:
  assumes cl: "\<And>a b. a \<in> W \<Longrightarrow> b \<in> set (neighbor_list g a) \<Longrightarrow> b \<noteq> u \<Longrightarrow> b \<in> W"
    and "v \<in> W" "z \<notin> W" "v \<noteq> u" "z \<noteq> u" "v < n_nodes g" "z < n_nodes g" "u < n_nodes g"
  shows "articulation_point g u"
proof -
  have "(v, z) \<notin> (inside g (- {u}))\<^sup>*"
    using closed_set_path [of W g u v z] cl assms(2,3) by blast
  then have "\<not> connected_avoiding g u v z" by (simp add: connected_avoiding_def)
  with assms(4-8) show ?thesis unfolding articulation_point_def by blast
qed

lemma grown_trans: "grown t r \<Longrightarrow> grown r q \<Longrightarrow> grown t q"
  by (simp add: grown_def)

section \<open>A neighbour that is already visited\<close>

lemma loop_pre_adjusted:
  assumes lp: "loop_pre g t0 u pre (v # vs) c t" and ad: "adjusted g u t t2"
    and cut: "is_cut t2 u = is_cut t u" and vis: "visited t v"
    and lowv: "visited t0 v \<Longrightarrow> parent_tarjan t0 u = Some v \<or> low t2 u \<le> disc t0 v"
  shows "loop_pre g t0 u (pre @ [v]) vs c t2"
proof -
  note l = loop_preD [OF lp]
  note a = adjustedD [OF ad]
  have wf2: "wf_state g t2" by (rule wf_state_adjusted [OF l(5) ad l(4)])
  have g2: "grown t0 t2" by (rule grown_adjusted [OF l(6) ad l(3)])
  have nochild: "parent_tarjan t u \<noteq> Some x" if "\<not> visited t0 x" for x
    using that l(7) older_doneD(1) [OF l(9), of x] by auto
  have base: "loop_base g t0 u (pre @ [v]) vs t2"
    unfolding loop_base_def using l(1-4,7-11) wf2 g2 vis by (auto simp add: a(1-4))
  have dn: "loop_done g t0 u t2"
    unfolding loop_done_def
  proof (intro allI impI)
    fix x assume x: "visited t2 x \<and> \<not> visited t0 x \<and> x \<noteq> u"
    then have "subtree_done g t0 t x" using l(12) by (simp add: loop_done_def a(1))
    from subtree_done_adjusted [OF this ad] x nochild [of x]
    show "subtree_done g t0 t2 x" by blast
  qed
  have lw: "loop_low g t0 u (pre @ [v]) t2"
    unfolding loop_low_def
  proof (intro conjI ballI allI impI)
    fix b assume b: "b \<in> set (pre @ [v])" "visited t0 b"
    show "parent_tarjan t0 u = Some b \<or> low t2 u \<le> disc t0 b"
    proof (cases "b = v")
      case True
      with lowv b(2) show ?thesis by simp
    next
      case False
      with b have "b \<in> set pre" by simp
      with l(13) b(2) have "parent_tarjan t0 u = Some b \<or> low t u \<le> disc t0 b"
        by (simp add: loop_low_def)
      with a(7) show ?thesis by auto
    qed
  next
    fix x b
    assume "visited t2 x \<and> \<not> visited t0 x \<and> x \<noteq> u \<and> b \<in> set (neighbor_list g x) \<and> visited t0 b"
    with l(13) have "low t u \<le> disc t0 b" unfolding loop_low_def a(1) by blast
    with a(7) show "low t2 u \<le> disc t0 b" by simp
  qed
  have lowx: "low t2 x = low t x" if "visited t x" "parent_tarjan t x = Some u" for x
  proof -
    from wf_stateD(6) [OF l(5) that] have "x \<noteq> u" by auto
    with a(5) show ?thesis by simp
  qed
  have c1: "parent_tarjan t2 u \<noteq> None \<longrightarrow>
      (\<forall>x. visited t2 x \<and> parent_tarjan t2 x = Some u \<and> disc t2 u \<le> low t2 x \<longrightarrow> is_cut t2 u)"
  proof (intro allI impI)
    fix x
    assume p: "parent_tarjan t2 u \<noteq> None"
      and x: "visited t2 x \<and> parent_tarjan t2 x = Some u \<and> disc t2 u \<le> low t2 x"
    then have "visited t x \<and> parent_tarjan t x = Some u \<and> disc t u \<le> low t x"
      using lowx [of x] by (simp add: a(1-4))
    with l(14) p have "is_cut t u" unfolding loop_count_def a(1-4) by blast
    with cut show "is_cut t2 u" by simp
  qed
  have cn: "loop_count t0 u c t2"
    using l(14) c1 unfolding loop_count_def a(1-4) cut by blast
  from base dn lw cn show ?thesis by (simp add: loop_pre_def)
qed

lemma loop_pre_visited:
  assumes lp: "loop_pre g t0 u pre (v # vs) c t" and vis: "visited t v"
  shows "loop_pre g t0 u (pre @ [v]) vs c
           (if Some v \<noteq> parent_tarjan t u \<and> disc t v < disc t u then back_edge u v t else t)"
proof -
  note l = loop_preD [OF lp]
  let ?cond = "Some v \<noteq> parent_tarjan t u \<and> disc t v < disc t u"
  let ?t2 = "if ?cond then back_edge u v t else t"
  have f: "visited ?t2 = visited t" "disc ?t2 = disc t" "parent_tarjan ?t2 = parent_tarjan t"
    "time_dfs ?t2 = time_dfs t" "is_cut ?t2 = is_cut t"
    by (simp_all add: back_edge_fields)
  have lowx: "low ?t2 x = low t x" if "x \<noteq> u" for x
    using that by (simp add: back_edge_fields)
  have lowu: "low ?t2 u \<le> low t u" by (simp add: back_edge_fields)
  have lowc: "low ?t2 u \<le> disc t v" if "?cond"
    using that by (simp add: back_edge_fields)
  have vu: "v \<in> set (neighbor_list g u)" using l(1) by simp
  have lwit: "low_witness g ?t2 u"
  proof (cases "?cond \<and> disc t v < low t u")
    case True
    then have eq: "low ?t2 u = disc t v" by (simp add: back_edge_fields)
    have "(u, u) \<in> (inside g {y. visited ?t2 y \<and> disc ?t2 u \<le> disc ?t2 y})\<^sup>*" by simp
    with vu vis eq show ?thesis unfolding low_witness_def f by metis
  next
    case False
    then have "low ?t2 u = low t u" by (auto simp add: back_edge_fields)
    from low_witness_cong [OF f(1,2) this, of g] wf_stateD(9) [OF l(5) l(4)]
    show ?thesis by simp
  qed
  have ad: "adjusted g u t ?t2"
    unfolding adjusted_def using f lowx lowu lwit by simp
  have lowv: "parent_tarjan t0 u = Some v \<or> low ?t2 u \<le> disc t0 v" if v0: "visited t0 v"
  proof (cases "Some v = parent_tarjan t u")
    case True
    with l(7) show ?thesis by simp
  next
    case False
    from grownD(2) [OF l(6) v0] l(10) [OF v0] l(8) have d: "disc t v < disc t u" "disc t v = disc t0 v"
      by simp_all
    with False lowc show ?thesis by simp
  qed
  from f(5) have "is_cut ?t2 u = is_cut t u" by simp
  from loop_pre_adjusted [OF lp ad this vis lowv] show ?thesis by simp
qed

section \<open>Leaving the loop\<close>

lemma call_post_exit:
  assumes lp: "loop_pre g t0 u pre [] c t"
  shows "call_post g t0 u (root_remaining u c t)"
proof -
  note l = loop_preD [OF lp]
  have fin: "finished g t u" using l(1,11) by (simp add: finished_def)
  have co: "complete t u"
    using l(14) unfolding complete_def loop_count_def by blast
  have sd: "\<forall>x. visited t x \<and> \<not> visited t0 x \<and> x \<noteq> u \<longrightarrow> subtree_done g t0 t x"
    using l(12) by (simp add: loop_done_def)
  have lw: "\<forall>a b. visited t a \<and> \<not> visited t0 a \<and> b \<in> set (neighbor_list g a) \<and> visited t0 b \<longrightarrow>
      (a = u \<and> parent_tarjan t0 u = Some b) \<or> low t u \<le> disc t0 b"
  proof (intro allI impI)
    fix a b
    assume h: "visited t a \<and> \<not> visited t0 a \<and> b \<in> set (neighbor_list g a) \<and> visited t0 b"
    show "(a = u \<and> parent_tarjan t0 u = Some b) \<or> low t u \<le> disc t0 b"
    proof (cases "a = u")
      case True
      with h l(1) have "b \<in> set pre" by simp
      with l(13) h True show ?thesis unfolding loop_low_def by blast
    next
      case False
      with l(13) h show ?thesis unfolding loop_low_def by blast
    qed
  qed
  have "call_post g t0 u t"
    unfolding call_post_def using l(4-8) fin co sd lw by blast
  with core_eq_call_post(2) [OF core_eq_steps(3), of g t0 u u c t] show ?thesis by simp
qed

section \<open>Returning from the recursive call on a child\<close>

lemma loop_pre_child:
  assumes lp: "loop_pre g t0 u pre (v # vs) c t" and nv: "\<not> visited t v"
    and cp: "call_post g (t\<lparr>parent_tarjan := (parent_tarjan t)(v := Some u)\<rparr>) v r"
    and sym: "adjacency_symmetric g"
  shows "loop_pre g t0 u (pre @ [v]) vs (c + 1) (after_child u v (c + 1) r)"
proof -
  note l = loop_preD [OF lp]
  let ?t1 = "t\<lparr>parent_tarjan := (parent_tarjan t)(v := Some u)\<rparr>"
  let ?t2 = "after_child u v (c + 1) r"
  note p = call_postD [OF cp]
  have vu: "v \<noteq> u" using l(4) nv by auto
  have vnb: "v \<in> set (neighbor_list g u)" using l(1) by simp
  have gtr: "grown t r"
    unfolding grown_def
  proof (intro allI impI)
    fix x assume x: "visited t x"
    then have xv: "x \<noteq> v" using nv by auto
    from x have "visited ?t1 x" by simp
    note grownD [OF p(2) this]
    with xv show "visited r x \<and> disc r x = disc t x \<and> low r x = low t x \<and>
        is_cut r x = is_cut t x \<and> parent_tarjan r x = parent_tarjan t x" by simp
  qed
  have g0r: "grown t0 r" by (rule grown_trans [OF l(6) gtr])
  note ru = grownD [OF gtr l(4)]
  have pv: "parent_tarjan r v = Some u" using p(4) by simp
  have tv: "time_dfs t < disc r v" using p(5) by simp
  have dut: "disc t u \<le> time_dfs t" by (rule wf_stateD(2) [OF l(5) l(4)])
  have duv: "disc r u < disc r v" using ru(2) dut tv by simp
  have newfin: "finished g r a" if "visited r a" "\<not> visited t a" for a
  proof (cases "a = v")
    case True
    with p(6) show ?thesis by simp
  next
    case False
    with p(8) [of a] that show ?thesis by (simp add: subtree_done_def)
  qed
  have newsub: "subtree_done g ?t1 r a" if "visited r a" "\<not> visited t a" "a \<noteq> v" for a
    using p(8) [of a] that by simp
  have newpar: "\<exists>q. parent_tarjan r a = Some q \<and> \<not> visited t q"
    if "visited r a" "\<not> visited t a" "a \<noteq> v" for a
    using newsub [OF that] by (simp add: subtree_done_def)
  have child: "visited t x \<and> parent_tarjan t x = Some u"
    if "visited r x" "parent_tarjan r x = Some u" "x \<noteq> v" for x
  proof (cases "visited t x")
    case True
    with grownD(5) [OF gtr True] that show ?thesis by simp
  next
    case False
    from newpar [OF that(1) False that(3)] that(2) l(4) show ?thesis by auto
  qed
  have oldnb: "visited t a"
    if "visited t b" "b \<noteq> u" "a \<in> set (neighbor_list g b)"
      and root: "parent_tarjan t u = None \<or> disc t u \<le> disc t b" for a b
  proof (cases "visited t0 b")
    case False
    from loop_doneD(2) [OF l(12) that(1) False that(2)] that(3) show ?thesis
      by (simp add: finished_def)
  next
    case True
    from l(10) [OF True] grownD(2) [OF l(6) True] l(8) have "disc t b < disc t u" by simp
    with root have "parent_tarjan t u = None" by auto
    with l(7) have "parent_tarjan t0 u = None" by simp
    from older_doneD(2) [OF l(9) this True] that(3) have "visited t0 a"
      by (simp add: finished_def)
    with grownD(1) [OF l(6)] show ?thesis by blast
  qed
  let ?cond = "(parent_tarjan r u = None \<and> 1 < c + 1) \<or>
      (parent_tarjan r u \<noteq> None \<and> disc r u \<le> low r v)"
  have sound: "articulation_point g u" if cond: ?cond
  proof -
    define W where "W = {x. visited r x \<and> \<not> visited t x}"
    have cl: "b \<in> W" if a: "a \<in> W" and b: "b \<in> set (neighbor_list g a)" and bu: "b \<noteq> u" for a b
    proof (rule ccontr)
      assume nb: "b \<notin> W"
      from a have ar: "visited r a" and at: "\<not> visited t a" by (simp_all add: W_def)
      from newfin [OF ar at] b have "visited r b" by (simp add: finished_def)
      with nb have bt: "visited t b" by (simp add: W_def)
      from sym b have ab: "a \<in> set (neighbor_list g b)" by (simp add: adjacency_symmetric_def)
      from p(9) [of a b] ar at b bt bu have lb: "low r v \<le> disc t b" by auto
      have "parent_tarjan t u = None \<or> disc t u \<le> disc t b"
        using cond ru(2,5) lb by auto
      from oldnb [OF bt bu ab this] at show False by simp
    qed
    have vW: "v \<in> W" using p(3) nv by (simp add: W_def)
    have "\<exists>z. z \<notin> W \<and> z \<noteq> u \<and> z < n_nodes g"
    proof (cases "parent_tarjan t u")
      case None
      with cond ru(5) have "1 \<le> c" by auto
      with l(14) obtain y where "visited t y" "\<not> visited t0 y" "y \<noteq> u"
        unfolding loop_count_def by blast
      with wf_stateD(1) [OF l(5), of y] show ?thesis by (auto simp add: W_def)
    next
      case (Some q)
      from wf_stateD(4,6) [OF l(5) l(4) Some] have "visited t q" "q \<noteq> u" by auto
      with wf_stateD(1) [OF l(5), of q] show ?thesis by (auto simp add: W_def)
    qed
    then obtain z where z: "z \<notin> W" "z \<noteq> u" "z < n_nodes g" by blast
    show ?thesis
    proof (rule separation [of W g u v z])
      show "\<And>a b. a \<in> W \<Longrightarrow> b \<in> set (neighbor_list g a) \<Longrightarrow> b \<noteq> u \<Longrightarrow> b \<in> W" by (rule cl)
      show "v \<in> W" by (rule vW)
      show "z \<notin> W" by (rule z(1))
      show "v \<noteq> u" by (rule vu)
      show "z \<noteq> u" by (rule z(2))
      show "v < n_nodes g" by (rule wf_stateD(1) [OF p(1) p(3)])
      show "z < n_nodes g" by (rule z(3))
      show "u < n_nodes g" by (rule l(2))
    qed
  qed
  have f: "visited ?t2 = visited r" "disc ?t2 = disc r" "parent_tarjan ?t2 = parent_tarjan r"
    "time_dfs ?t2 = time_dfs r"
    by (simp_all add: after_child_fields)
  have lowx: "low ?t2 x = low r x" if "x \<noteq> u" for x
    using that by (simp add: after_child_fields)
  have lowu: "low ?t2 u \<le> low r u" by (simp add: after_child_fields)
  have lowv: "low ?t2 u \<le> low r v" by (simp add: after_child_fields)
  have cutx: "is_cut ?t2 x = (is_cut r x \<or> (x = u \<and> ?cond))" for x
    by (rule after_child_is_cut [OF vu])
  have lwit: "low_witness g ?t2 u"
  proof (cases "low r v < low r u")
    case True
    then have eq: "low ?t2 u = low r v" by (simp add: after_child_fields)
    from True wf_stateD(3) [OF p(1) ru(1)] duv have "low r v \<noteq> disc r v" by simp
    with wf_stateD(9) [OF p(1) p(3)] obtain a b
      where ab: "(v, a) \<in> (inside g {y. visited r y \<and> disc r v \<le> disc r y})\<^sup>*"
        "b \<in> set (neighbor_list g a)" "visited r b" "disc r b = low r v"
      unfolding low_witness_def by blast
    have "{y. visited r y \<and> disc r v \<le> disc r y} \<subseteq> {y. visited r y \<and> disc r u \<le> disc r y}"
      using duv by auto
    from inside_mono [OF this, of g] ab(1)
    have va: "(v, a) \<in> (inside g {y. visited r y \<and> disc r u \<le> disc r y})\<^sup>*" by blast
    have "(u, v) \<in> inside g {y. visited r y \<and> disc r u \<le> disc r y}"
      using ru(1) p(3) duv vnb by (simp add: inside_def)
    from converse_rtrancl_into_rtrancl [OF this va]
    have "(u, a) \<in> (inside g {y. visited r y \<and> disc r u \<le> disc r y})\<^sup>*" .
    with ab(2-4) eq show ?thesis unfolding low_witness_def f by metis
  next
    case False
    then have "low ?t2 u = low r u" by (simp add: after_child_fields)
    from low_witness_cong [OF f(1,2) this, of g] wf_stateD(9) [OF p(1) ru(1)]
    show ?thesis by simp
  qed
  have ad: "adjusted g u r ?t2"
    unfolding adjusted_def
  proof (intro conjI allI impI)
    show "visited ?t2 = visited r" "disc ?t2 = disc r" "parent_tarjan ?t2 = parent_tarjan r"
      "time_dfs ?t2 = time_dfs r" by (rule f)+
    show "low ?t2 u \<le> low r u" by (rule lowu)
    show "low_witness g ?t2 u" by (rule lwit)
    show "is_cut ?t2 u" if "is_cut r u" using that cutx [of u] by simp
    show "is_cut r u \<or> articulation_point g u" if "is_cut ?t2 u"
      using that cutx [of u] sound by auto
    show "low ?t2 x = low r x" if "x \<noteq> u" for x by (rule lowx [OF that])
    show "is_cut ?t2 x = is_cut r x" if "x \<noteq> u" for x using that cutx [of x] by simp
  qed
  have wf2: "wf_state g ?t2" by (rule wf_state_adjusted [OF p(1) ad ru(1)])
  have g2: "grown t0 ?t2" by (rule grown_adjusted [OF g0r ad l(3)])
  have nochild: "parent_tarjan r u \<noteq> Some x" if "\<not> visited t0 x" for x
    using that l(7) ru(5) older_doneD(1) [OF l(9), of x] by auto
  have prer: "visited r b" if "b \<in> set (pre @ [v])" for b
    using that l(11) [of b] grownD(1) [OF gtr, of b] p(3) by auto
  have base: "loop_base g t0 u (pre @ [v]) vs ?t2"
    unfolding loop_base_def f
    using l(1-3,7-10) ru(1,2,5) wf2 g2 prer by auto
  have sdr: "subtree_done g t0 r x" if x: "visited r x" "\<not> visited t0 x" "x \<noteq> u" for x
  proof (cases "visited t x")
    case xt: True
    note s = loop_doneD [OF l(12) xt x(2,3)]
    note gx = grownD [OF gtr xt]
    from s(3) obtain q where q: "parent_tarjan t x = Some q" "\<not> visited t0 q" by blast
    have cut: "is_cut r x"
      if c': "visited r c'" "parent_tarjan r c' = Some x" "disc r x \<le> low r c'" for c'
    proof -
      have ct: "visited t c'"
      proof (rule ccontr)
        assume n: "\<not> visited t c'"
        show False
        proof (cases "c' = v")
          case True
          with c'(2) pv x(3) show False by simp
        next
          case False
          from newpar [OF c'(1) n False] c'(2) xt show False by auto
        qed
      qed
      from grownD [OF gtr ct] c' gx
      have "visited t c' \<and> parent_tarjan t c' = Some x \<and> disc t x \<le> low t c'" using ct by simp
      with s(4) q(1) have "is_cut t x" unfolding complete_def by blast
      with gx(4) show "is_cut r x" by simp
    qed
    have "complete r x"
      unfolding complete_def using cut q(1) gx(5) by auto
    moreover have "finished g r x"
      by (rule finished_mono [OF s(2)]) (rule grownD(1) [OF gtr])
    ultimately show ?thesis
      unfolding subtree_done_def using s(1) gx q by auto
  next
    case xt: False
    show ?thesis
    proof (cases "x = v")
      case True
      with pv p(6,7) l(3) tv l(8) dut show ?thesis unfolding subtree_done_def by auto
    next
      case False
      from newsub [OF x(1) xt False] l(8) dut grownD(1) [OF l(6)] show ?thesis
        unfolding subtree_done_def by auto
    qed
  qed
  have dn: "loop_done g t0 u ?t2"
    unfolding loop_done_def
  proof (intro allI impI)
    fix x assume x: "visited ?t2 x \<and> \<not> visited t0 x \<and> x \<noteq> u"
    then have "visited r x \<and> \<not> visited t0 x \<and> x \<noteq> u" unfolding f .
    then have "subtree_done g t0 r x" using sdr [of x] by simp
    from subtree_done_adjusted [OF this ad] x nochild [of x]
    show "subtree_done g t0 ?t2 x" by blast
  qed
  have lw: "loop_low g t0 u (pre @ [v]) ?t2"
    unfolding loop_low_def
  proof (intro conjI ballI allI impI)
    fix b assume b: "b \<in> set (pre @ [v])" "visited t0 b"
    from b(2) grownD(1) [OF l(6)] nv have "b \<noteq> v" by auto
    with b have "b \<in> set pre" by simp
    with l(13) b(2) have "parent_tarjan t0 u = Some b \<or> low t u \<le> disc t0 b"
      by (simp add: loop_low_def)
    with lowu ru(3) show "parent_tarjan t0 u = Some b \<or> low ?t2 u \<le> disc t0 b" by auto
  next
    fix x b
    assume h: "visited ?t2 x \<and> \<not> visited t0 x \<and> x \<noteq> u \<and> b \<in> set (neighbor_list g x) \<and> visited t0 b"
    then have xr: "visited r x" unfolding f by simp
    from h have bt: "visited t b" "disc t b = disc t0 b"
      using grownD(1,2) [OF l(6), of b] by simp_all
    show "low ?t2 u \<le> disc t0 b"
    proof (cases "visited t x")
      case True
      with l(13) h have "low t u \<le> disc t0 b" unfolding loop_low_def by blast
      with lowu ru(3) show ?thesis by simp
    next
      case False
      from h l(3) have "b \<noteq> u" by auto
      with p(9) [of x b] xr False h bt have "low r v \<le> disc t0 b" by auto
      with lowv show ?thesis by simp
    qed
  qed
  have c1: "is_cut ?t2 u"
    if pn: "parent_tarjan r u \<noteq> None"
      and x: "visited r x" "parent_tarjan r x = Some u" "disc r u \<le> low ?t2 x" for x
  proof -
    from wf_stateD(6) [OF p(1) x(1,2)] have xu: "x \<noteq> u" by auto
    with x(3) lowx [of x] have d: "disc r u \<le> low r x" by simp
    show ?thesis
    proof (cases "x = v")
      case True
      with d pn cutx [of u] show ?thesis by simp
    next
      case False
      from child [OF x(1,2) False] have xt: "visited t x" "parent_tarjan t x = Some u"
        by simp_all
      from d grownD(3) [OF gtr xt(1)] ru(2) have "disc t u \<le> low t x" by simp
      with l(14) xt pn ru(5) have "is_cut t u" unfolding loop_count_def by auto
      with ru(4) cutx [of u] show ?thesis by simp
    qed
  qed
  have one: "1 \<le> c" if "visited t z" "parent_tarjan t z = Some u" for z
    using l(14) that unfolding loop_count_def by blast
  have c3: "2 \<le> c + 1"
    if "x \<noteq> y" "visited r x" "parent_tarjan r x = Some u"
      "visited r y" "parent_tarjan r y = Some u" for x y
  proof (cases "x = v")
    case True
    with that have "y \<noteq> v" by simp
    from child [OF that(4,5) this] one [of y] show ?thesis by auto
  next
    case False
    from child [OF that(2,3) False] one [of x] show ?thesis by auto
  qed
  have c4: "is_cut ?t2 u" if "parent_tarjan r u = None" "2 \<le> c + 1"
    using that cutx [of u] by simp
  have c5: "\<exists>y. visited r y \<and> \<not> visited t0 y \<and> y \<noteq> u"
    using p(3) nv grownD(1) [OF l(6), of v] vu by blast
  have cn: "loop_count t0 u (c + 1) ?t2"
    unfolding loop_count_def f
    apply (intro conjI)
    subgoal using c1 by blast
    subgoal by simp
    subgoal using c3 by blast
    subgoal using c4 by blast
    subgoal using c5 by blast
    done
  from base dn lw cn show ?thesis by (simp add: loop_pre_def)
qed

section \<open>The invariant along the whole search\<close>

lemma dfs_correct:
  "in_range g \<Longrightarrow> adjacency_symmetric g \<Longrightarrow> call_pre g t u \<Longrightarrow>
     tarjan_dfs_bicomp g fuel u t = Some r \<Longrightarrow> call_post g t u r"
  "in_range g \<Longrightarrow> adjacency_symmetric g \<Longrightarrow> loop_pre g t0 u pre vs c t \<Longrightarrow>
     dfs_loop g fuel u vs c t = Some (k, r) \<Longrightarrow> loop_pre g t0 u (pre @ vs) [] k r"
proof (induction g fuel u t and g fuel u vs c t arbitrary: r and t0 pre k r
       rule: tarjan_dfs_bicomp_dfs_loop.induct)
  case (1 g u t)
  then show ?case by simp
next
  case (2 g fuel u t)
  from "2.prems"(4) obtain k t'
    where d: "dfs_loop g fuel u (neighbor_list g u) 0 (enter_node u t) = Some (k, t')"
      and r: "r = root_remaining u k t'"
    by (auto split: option.splits)
  from loop_pre_enter [OF "2.prems"(3)]
  have "loop_pre g t u [] (neighbor_list g u) 0 (enter_node u t)" .
  from "2.IH" [OF "2.prems"(1,2) this d]
  have "loop_pre g t u (neighbor_list g u) [] k t'" by simp
  from call_post_exit [OF this] r show ?case by simp
next
  case (3 g fuel u children t)
  then show ?case by simp
next
  case (4 g fuel u v vs children t)
  show ?case
  proof (cases "visited t v")
    case False
    let ?t1 = "t\<lparr>parent_tarjan := (parent_tarjan t)(v := Some u)\<rparr>"
    from "4.prems"(4) False obtain t'
      where a: "tarjan_dfs_bicomp g fuel v (push_edge u v ?t1) = Some t'"
        and b: "dfs_loop g fuel u vs (children + 1) (after_child u v (children + 1) t') = Some (k, r)"
      by (auto split: option.splits)
    from call_pre_child [OF "4.prems"(3) False "4.prems"(1)]
    have "call_pre g (push_edge u v ?t1) v" .
    from "4.IH"(1) [OF False "4.prems"(1,2) this a]
    have "call_post g (push_edge u v ?t1) v t'" .
    with core_eq_call_post(1) [OF core_eq_steps(1), of g u v ?t1 v t']
    have "call_post g ?t1 v t'" by simp
    from loop_pre_child [OF "4.prems"(3) False this "4.prems"(2)]
    have "loop_pre g t0 u (pre @ [v]) vs (children + 1) (after_child u v (children + 1) t')" .
    from "4.IH"(2) [OF False a "4.prems"(1,2) this b] show ?thesis by simp
  next
    case True
    note lp = loop_pre_visited [OF "4.prems"(3) True]
    show ?thesis
    proof (cases "Some v \<noteq> parent_tarjan t u \<and> disc t v < disc t u")
      case c: True
      with lp have l: "loop_pre g t0 u (pre @ [v]) vs children (back_edge u v t)" by simp
      from "4.prems"(4) True c
      have "dfs_loop g fuel u vs children (back_edge u v t) = Some (k, r)" by simp
      from "4.IH"(3) [OF _ c "4.prems"(1,2) l this] True show ?thesis by simp
    next
      case c: False
      with lp have l: "loop_pre g t0 u (pre @ [v]) vs children t" by simp
      from "4.prems"(4) True c
      have "dfs_loop g fuel u vs children t = Some (k, r)" by auto
      from "4.IH"(4) [OF _ c "4.prems"(1,2) l this] True show ?thesis by simp
    qed
  qed
qed

section \<open>Connectivity and the final state\<close>

lemma roots_loop_visited:
  "\<forall>i \<in> set is. visited t i \<Longrightarrow> roots_loop g fuel is t = Some t"
  by (induction "is") simp_all

lemma reach_visited:
  assumes fin: "\<And>x. visited r x \<Longrightarrow> finished g r x"
  shows "(a, b) \<in> (inside g UNIV)\<^sup>* \<Longrightarrow> visited r a \<Longrightarrow> visited r b"
proof (induction rule: rtrancl_induct)
  case base
  then show ?case by simp
next
  case (step y z)
  from step have "visited r y" by simp
  from fin [OF this] step.hyps(2) show ?case by (simp add: finished_def inside_def)
qed

lemma inside_stays:
  "(a, b) \<in> (inside g S)\<^sup>* \<Longrightarrow> a \<in> S \<Longrightarrow> b \<in> S"
  by (induction rule: rtrancl_induct) (simp_all add: inside_def)

lemma connected_avoiding_sym:
  assumes "adjacency_symmetric g" "connected_avoiding g w a b"
  shows "connected_avoiding g w b a"
proof -
  have "sym (inside g (- {w}))"
    using assms(1) by (auto simp add: sym_def inside_def adjacency_symmetric_def)
  then have "sym ((inside g (- {w}))\<^sup>*)" by (rule sym_rtrancl)
  with assms(2) show ?thesis by (simp add: connected_avoiding_def sym_def)
qed

lemma connected_avoiding_trans:
  "connected_avoiding g w a b \<Longrightarrow> connected_avoiding g w b c \<Longrightarrow> connected_avoiding g w a c"
  by (simp add: connected_avoiding_def)

lemma connected_avoiding_parent:
  assumes wf: "wf_state g r" and sym: "adjacency_symmetric g"
    and a: "visited r a" "parent_tarjan r a = Some q" "a \<noteq> w" "q \<noteq> w"
  shows "connected_avoiding g w a q"
proof -
  from wf_stateD(5) [OF wf a(1,2)] sym have "q \<in> set (neighbor_list g a)"
    by (simp add: adjacency_symmetric_def)
  with a(3,4) have "(a, q) \<in> inside g (- {w})" by (simp add: inside_def)
  then show ?thesis by (simp add: connected_avoiding_def)
qed

text \<open>A node other than the root that is not flagged does not separate anything from the root.\<close>

lemma below_reaches_root:
  assumes wf: "wf_state g r" and sym: "adjacency_symmetric g"
    and par: "\<And>x. visited r x \<Longrightarrow> x \<noteq> rt \<Longrightarrow> \<exists>p. parent_tarjan r x = Some p"
    and co: "complete r w" and w: "w \<noteq> rt" "visited r w" "\<not> is_cut r w"
  shows "visited r a \<Longrightarrow> a \<noteq> w \<Longrightarrow> connected_avoiding g w a rt"
proof (induction a rule: measure_induct_rule [of "disc r"])
  case (less a)
  show ?case
  proof (cases "a = rt")
    case True
    then show ?thesis by (simp add: connected_avoiding_def)
  next
    case False
    from par [OF less.prems(1) False] obtain q where q: "parent_tarjan r a = Some q" by blast
    note pq = wf_stateD(4-6) [OF wf less.prems(1) q]
    show ?thesis
    proof (cases "q = w")
      case qw: False
      from connected_avoiding_parent [OF wf sym less.prems(1) q less.prems(2) qw]
        less.IH [OF pq(3) pq(1) qw]
      show ?thesis by (rule connected_avoiding_trans)
    next
      case qw: True
      from par [OF w(2,1)] have "parent_tarjan r w \<noteq> None" by auto
      with co w(3) less.prems(1) q qw have lw: "low r a < disc r w"
        unfolding complete_def by (metis not_le_imp_less)
      from pq(3) qw have dw: "disc r w < disc r a" by simp
      with lw have "low r a \<noteq> disc r a" by simp
      with wf_stateD(9) [OF wf less.prems(1)] obtain a' b
        where ab: "(a, a') \<in> (inside g {y. visited r y \<and> disc r a \<le> disc r y})\<^sup>*"
          "b \<in> set (neighbor_list g a')" "visited r b" "disc r b = low r a"
        unfolding low_witness_def by blast
      have "{y. visited r y \<and> disc r a \<le> disc r y} \<subseteq> - {w}" using dw by auto
      from inside_mono [OF this, of g] ab(1)
      have p1: "(a, a') \<in> (inside g (- {w}))\<^sup>*" by blast
      from inside_stays [OF p1] less.prems(2) have "a' \<noteq> w" by simp
      moreover from ab(4) lw have bw: "b \<noteq> w" by auto
      ultimately have "(a', b) \<in> inside g (- {w})" using ab(2) by (simp add: inside_def)
      with p1 have "(a, b) \<in> (inside g (- {w}))\<^sup>*" by (rule rtrancl_into_rtrancl)
      then have "connected_avoiding g w a b" by (simp add: connected_avoiding_def)
      moreover from ab(4) lw dw have "disc r b < disc r a" by simp
      from less.IH [OF this ab(3) bw] have "connected_avoiding g w b rt" .
      ultimately show ?thesis by (rule connected_avoiding_trans)
    qed
  qed
qed

lemma below_reaches_child:
  assumes wf: "wf_state g r" and sym: "adjacency_symmetric g"
    and par: "\<And>x. visited r x \<Longrightarrow> x \<noteq> rt \<Longrightarrow> \<exists>p. parent_tarjan r x = Some p"
  shows "visited r a \<Longrightarrow> a \<noteq> rt \<Longrightarrow>
    \<exists>c. visited r c \<and> parent_tarjan r c = Some rt \<and> connected_avoiding g rt a c"
proof (induction a rule: measure_induct_rule [of "disc r"])
  case (less a)
  from par [OF less.prems] obtain q where q: "parent_tarjan r a = Some q" by blast
  note pq = wf_stateD(4-6) [OF wf less.prems(1) q]
  show ?case
  proof (cases "q = rt")
    case True
    have "connected_avoiding g rt a a" by (simp add: connected_avoiding_def)
    with less.prems(1) q True show ?thesis by blast
  next
    case False
    from less.IH [OF pq(3) pq(1) False] obtain c
      where c: "visited r c" "parent_tarjan r c = Some rt" "connected_avoiding g rt q c"
      by blast
    from connected_avoiding_parent [OF wf sym less.prems(1) q less.prems(2) False] c(3)
    have "connected_avoiding g rt a c" by (rule connected_avoiding_trans)
    with c(1,2) show ?thesis by blast
  qed
qed

lemma unflagged_not_articulation:
  assumes wf: "wf_state g r" and sym: "adjacency_symmetric g"
    and all: "\<And>x. x < n_nodes g \<Longrightarrow> visited r x"
    and rt: "parent_tarjan r rt = None"
    and par: "\<And>x. visited r x \<Longrightarrow> x \<noteq> rt \<Longrightarrow> \<exists>p. parent_tarjan r x = Some p"
    and co: "\<And>x. visited r x \<Longrightarrow> complete r x"
    and w: "w < n_nodes g" "\<not> is_cut r w"
  shows "\<not> articulation_point g w"
proof -
  have vw: "visited r w" by (rule all [OF w(1)])
  have cw: "complete r w" by (rule co [OF vw])
  have conn: "connected_avoiding g w a b"
    if ab: "a < n_nodes g" "b < n_nodes g" "a \<noteq> w" "b \<noteq> w" for a b
  proof (cases "w = rt")
    case False
    have br: "connected_avoiding g w x rt" if x: "visited r x" "x \<noteq> w" for x
    proof (rule below_reaches_root [where r = r and w = w])
      show "wf_state g r" by (rule wf)
      show "adjacency_symmetric g" by (rule sym)
      show "\<exists>p. parent_tarjan r y = Some p" if "visited r y" "y \<noteq> rt" for y
        using that by (rule par)
      show "complete r w" by (rule cw)
      show "w \<noteq> rt" by (rule False)
      show "visited r w" by (rule vw)
      show "\<not> is_cut r w" by (rule w(2))
      show "visited r x" by (rule x(1))
      show "x \<noteq> w" by (rule x(2))
    qed
    have 1: "connected_avoiding g w a rt" by (rule br [OF all [OF ab(1)] ab(3)])
    have "connected_avoiding g w b rt" by (rule br [OF all [OF ab(2)] ab(4)])
    then have 2: "connected_avoiding g w rt b" by (rule connected_avoiding_sym [OF sym])
    from 1 2 show ?thesis by (rule connected_avoiding_trans)
  next
    case True
    have bc: "\<exists>c. visited r c \<and> parent_tarjan r c = Some rt \<and> connected_avoiding g rt x c"
      if x: "visited r x" "x \<noteq> rt" for x
    proof (rule below_reaches_child [where r = r])
      show "wf_state g r" by (rule wf)
      show "adjacency_symmetric g" by (rule sym)
      show "\<exists>p. parent_tarjan r y = Some p" if "visited r y" "y \<noteq> rt" for y
        using that by (rule par)
      show "visited r x" by (rule x(1))
      show "x \<noteq> rt" by (rule x(2))
    qed
    from ab(3) True have art: "a \<noteq> rt" by simp
    from ab(4) True have brt: "b \<noteq> rt" by simp
    from bc [OF all [OF ab(1)] art] obtain c
      where c: "visited r c" "parent_tarjan r c = Some rt" "connected_avoiding g rt a c"
      by blast
    from bc [OF all [OF ab(2)] brt] obtain d
      where d: "visited r d" "parent_tarjan r d = Some rt" "connected_avoiding g rt b d"
      by blast
    from cw True have "complete r rt" by simp
    with rt have two: "\<forall>c d. c \<noteq> d \<and> visited r c \<and> parent_tarjan r c = Some rt \<and>
        visited r d \<and> parent_tarjan r d = Some rt \<longrightarrow> is_cut r rt"
      by (simp add: complete_def)
    from w(2) True have "\<not> is_cut r rt" by simp
    with two c(1,2) d(1,2) have "c = d" by blast
    with d(3) have "connected_avoiding g rt b c" by simp
    then have "connected_avoiding g rt c b" by (rule connected_avoiding_sym [OF sym])
    with c(3) have "connected_avoiding g rt a b" by (rule connected_avoiding_trans)
    with True show ?thesis by simp
  qed
  show ?thesis
  proof
    assume "articulation_point g w"
    then obtain a b where "a < n_nodes g" "b < n_nodes g" "a \<noteq> w" "b \<noteq> w"
      "\<not> connected_avoiding g w a b"
      unfolding articulation_point_def by blast
    with conn [of a b] show False by simp
  qed
qed


lemma first_root:
  assumes rng: "in_range g" and sym: "adjacency_symmetric g" and conn: "connected_graph g"
    and n: "0 < n_nodes g"
    and run: "tarjan_dfs_bicomp g fuel 0
       (reset_tarjan\<lparr>parent_tarjan := (parent_tarjan reset_tarjan)(0 := None)\<rparr>) = Some r"
  shows "wf_state g r" "x < n_nodes g \<Longrightarrow> visited r x" "parent_tarjan r 0 = None"
    "visited r x \<Longrightarrow> x \<noteq> 0 \<Longrightarrow> \<exists>p. parent_tarjan r x = Some p"
    "visited r x \<Longrightarrow> complete r x"
proof -
  let ?t = "reset_tarjan\<lparr>parent_tarjan := (parent_tarjan reset_tarjan)(0 := None)\<rparr>"
  have nv: "\<not> visited ?t y" for y by (simp add: reset_tarjan_def)
  have "call_pre g ?t 0"
    unfolding call_pre_def wf_state_def older_done_def using n by (simp add: reset_tarjan_def)
  from dfs_correct(1) [OF rng sym this run] have cp: "call_post g ?t 0 r" .
  note p = call_postD [OF cp]
  show "wf_state g r" by (rule p(1))
  have sub: "subtree_done g ?t r y" if "visited r y" "y \<noteq> 0" for y
    using p(8) [OF that(1) nv that(2)] .
  have fin: "finished g r y" if "visited r y" for y
    using p(6) sub [OF that] by (cases "y = 0") (simp_all add: subtree_done_def)
  show "visited r x" if "x < n_nodes g"
  proof -
    from conn n that have "(0, x) \<in> (inside g UNIV)\<^sup>*" unfolding connected_graph_def by blast
    from reach_visited [OF fin this p(3)] show ?thesis .
  qed
  show "parent_tarjan r 0 = None" using p(4) by (simp add: reset_tarjan_def)
  show "\<exists>p. parent_tarjan r x = Some p" if "visited r x" "x \<noteq> 0"
    using sub [OF that] unfolding subtree_done_def by blast
  show "complete r x" if "visited r x"
    using p(7) sub [OF that] by (cases "x = 0") (simp_all add: subtree_done_def)
qed

section \<open>Cut-vertex correctness\<close>

lemma fork3_rows:
  "neighbor_list (gr fork3) u =
     (if u = 0 then [1, 2] else if u = 1 then [0] else if u = 2 then [0] else [])"
proof -
  consider "u = 0" | "u = 1" | "u = 2" | "3 \<le> u" by linarith
  then show ?thesis by cases (simp_all add: fork3_def rows_eval)
qed

lemma fork3_graph:
  "n_nodes (gr fork3) = 3" "in_range (gr fork3)" "adjacency_symmetric (gr fork3)"
  "connected_graph (gr fork3)"
proof -
  show n: "n_nodes (gr fork3) = 3" by (simp add: fork3_def rows_eval)
  show "in_range (gr fork3)"
    unfolding in_range_def n by (auto simp add: fork3_rows split: if_splits)
  show "adjacency_symmetric (gr fork3)"
    unfolding adjacency_symmetric_def by (auto simp add: fork3_rows split: if_splits)
  let ?R = "inside (gr fork3) UNIV"
  have e: "(0, 1) \<in> ?R" "(1, 0) \<in> ?R" "(0, 2) \<in> ?R" "(2, 0) \<in> ?R"
    by (simp_all add: inside_def fork3_rows)
  have to0: "(a, 0) \<in> ?R\<^sup>*" if "a < 3" for a
  proof -
    from that consider "a = 0" | "a = 1" | "a = 2" by linarith
    then show ?thesis using e by cases auto
  qed
  have from0: "(0, b) \<in> ?R\<^sup>*" if "b < 3" for b
  proof -
    from that consider "b = 0" | "b = 1" | "b = 2" by linarith
    then show ?thesis using e by cases auto
  qed
  show "connected_graph (gr fork3)"
    unfolding connected_graph_def n using to0 from0 by (meson rtrancl_trans)
qed

text \<open>
  Claim C2. On a graph whose adjacency entries are in range and symmetric and that is
  connected, the analyzer returns (given a recursion budget of at least the node count),
  and for every node \<open>v\<close> the flag \<^verbatim>\<open>is_cut[v]\<close> is set iff \<open>v\<close> is an articulation point
  in the sense of the reference definition: two nodes other than \<open>v\<close> are not joined by
  any path in the graph without \<open>v\<close> and its incident edges.
\<close>

theorem cut_vertices_correct:
  assumes rng: "in_range (gr s)" and sym: "adjacency_symmetric (gr s)"
    and conn: "connected_graph (gr s)" and fuel: "n_nodes (gr s) \<le> fuel"
  shows "\<exists>s'. find_biconnected_components fuel s = Some s' \<and>
    (\<forall>v < n_nodes (gr s). is_cut (tj s') v = articulation_point (gr s) v)"
proof (cases "n_nodes (gr s) = 0")
  case True
  from find_biconnected_components_total [OF rng fuel] True show ?thesis by auto
next
  case False
  let ?g = "gr s"
  let ?t = "reset_tarjan\<lparr>parent_tarjan := (parent_tarjan reset_tarjan)(0 := None)\<rparr>"
  from False have n: "0 < n_nodes ?g" by simp
  then have up: "[0..<n_nodes ?g] = 0 # [Suc 0..<n_nodes ?g]" by (simp add: upt_conv_Cons)
  have "set [0..<n_nodes ?g] \<subseteq> {..<n_nodes ?g}" by auto
  from roots_loop_total [OF rng fuel this, of reset_tarjan] obtain t
    where rl: "roots_loop ?g fuel [0..<n_nodes ?g] reset_tarjan = Some t" by blast
  then have run: "find_biconnected_components fuel s = Some (s\<lparr>tj := t\<rparr>)"
    by (simp add: find_biconnected_components_def)
  have nv0: "\<not> visited reset_tarjan 0" by (simp add: reset_tarjan_def)
  from rl have "roots_loop ?g fuel (0 # [Suc 0..<n_nodes ?g]) reset_tarjan = Some t"
    unfolding up .
  with nv0 obtain r where dfs: "tarjan_dfs_bicomp ?g fuel 0 ?t = Some r"
    and rest: "roots_loop ?g fuel [Suc 0..<n_nodes ?g] r = Some t"
    by (auto split: option.splits)
  note fr = first_root [OF rng sym conn n dfs]
  have "\<forall>i \<in> set [Suc 0..<n_nodes ?g]. visited r i" using fr(2) by simp
  from roots_loop_visited [OF this, of ?g fuel] rest have tr: "t = r" by simp
  have "is_cut r v = articulation_point ?g v" if "v < n_nodes ?g" for v
  proof
    assume "is_cut r v"
    then show "articulation_point ?g v" by (rule wf_stateD(8) [OF fr(1)])
  next
    assume ap: "articulation_point ?g v"
    show "is_cut r v"
    proof (rule ccontr)
      assume "\<not> is_cut r v"
      have "\<not> articulation_point ?g v"
      proof (rule unflagged_not_articulation [where r = r and rt = 0])
        show "wf_state ?g r" by (rule fr(1))
        show "adjacency_symmetric ?g" by (rule sym)
        show "visited r x" if "x < n_nodes ?g" for x using that by (rule fr(2))
        show "parent_tarjan r 0 = None" by (rule fr(3))
        show "\<exists>p. parent_tarjan r x = Some p" if "visited r x" "x \<noteq> 0" for x
          using that by (rule fr(4))
        show "complete r x" if "visited r x" for x using that by (rule fr(5))
        show "v < n_nodes ?g" by (rule that)
        show "\<not> is_cut r v" by fact
      qed
      with ap show False by simp
    qed
  qed
  with run tr show ?thesis by simp
qed


text \<open>
  The graph with the edges \<open>0-1\<close> and \<open>0-2\<close>: the root \<open>0\<close> is flagged and is an
  articulation point; the nodes \<open>1\<close> and \<open>2\<close> are neither.
\<close>

theorem cut_vertices_correct_witness:
  "in_range (gr fork3) \<and> adjacency_symmetric (gr fork3) \<and> connected_graph (gr fork3) \<and>
   n_nodes (gr fork3) \<le> 4 \<and>
   find_biconnected_components 4 fork3 = Some fork3_analysed \<and>
   is_cut (tj fork3_analysed) 0 \<and> articulation_point (gr fork3) 0 \<and>
   \<not> is_cut (tj fork3_analysed) 1 \<and> \<not> articulation_point (gr fork3) 1 \<and>
   \<not> is_cut (tj fork3_analysed) 2 \<and> \<not> articulation_point (gr fork3) 2"
proof -
  have f: "n_nodes (gr fork3) \<le> 4" by (simp add: fork3_graph)
  from cut_vertices_correct [OF fork3_graph(2,3,4) f] fork3_analysis(1)
  have "\<forall>v < n_nodes (gr fork3). is_cut (tj fork3_analysed) v = articulation_point (gr fork3) v"
    by simp
  then have "is_cut (tj fork3_analysed) 0 = articulation_point (gr fork3) 0"
    "is_cut (tj fork3_analysed) 1 = articulation_point (gr fork3) 1"
    "is_cut (tj fork3_analysed) 2 = articulation_point (gr fork3) 2"
    by (simp_all add: fork3_graph(1))
  with f fork3_graph fork3_analysis(1,5) show ?thesis by simp
qed

end
